theory Spec2Isabelle
  imports Main "HOL-Library.Word"
begin

unbundle bit_operations_syntax

section \<open>The interleaver test program (test_interleaver/src/main.c)\<close>

text \<open>
  The program builds a buffer holding a 16-bit counting pattern (\<open>create_buf\<close>), passes
  it through the interleaver and the deinterleaver of libbladeRF, and checks the pattern
  with \<open>check_buf\<close> after each step (\<open>test\<close>, called four times by \<open>main\<close>).

  Platform assumptions of the embedding, all of them the ones the C source makes itself:
  \<^item> \<open>size_t\<close> is 64 bits wide (the source prints it with \<open>%lu\<close>). A \<open>size_t\<close> value is a
    \<open>nat\<close>; where an operation of the source can wrap, \<open>mod 2 ^ 64\<close> is written out.
  \<^item> \<open>uint16_t\<close> and \<open>uint32_t\<close> are \<open>16 word\<close> and \<open>32 word\<close>.
  \<^item> The host is little-endian: the source writes 16-bit words and reads them back in
    pairs as one 32-bit word whose low half is the first of the two. A read through a
    \<open>uint32_t *\<close> yields the four bytes at that address, whatever the alignment.
  \<^item> \<open>count << 16\<close> is computed on the promoted \<open>count\<close> and added to a \<open>uint32_t\<close>:
    it is the shift of a 32-bit word.
\<close>

subsection \<open>Memory\<close>

text \<open>
  One test case owns one block of memory, the one \<open>malloc\<close> returned. The block is the
  list of its bytes, and a pointer into it is the byte offset from its start. A read
  that leaves the block is undefined behaviour in C; the model reports it as a fault.
\<close>

type_synonym byte = "8 word"
type_synonym mem = "byte list"

datatype fault = DivByZero | OutOfBounds

definition read_u16 :: "mem \<Rightarrow> nat \<Rightarrow> 16 word option" where
  "read_u16 m a =
     (if a + 2 \<le> length m
      then Some (ucast (m ! a) + push_bit 8 (ucast (m ! (a + 1))))
      else None)"

definition read_u32 :: "mem \<Rightarrow> nat \<Rightarrow> 32 word option" where
  "read_u32 m a =
     (if a + 4 \<le> length m
      then Some (ucast (m ! a) + push_bit 8 (ucast (m ! (a + 1)))
                 + push_bit 16 (ucast (m ! (a + 2))) + push_bit 24 (ucast (m ! (a + 3))))
      else None)"

definition write_u16 :: "mem \<Rightarrow> nat \<Rightarrow> 16 word \<Rightarrow> mem" where
  "write_u16 m a v = (m[a := ucast v])[a + 1 := ucast (drop_bit 8 v)]"

subsection \<open>create_buf\<close>

text \<open>
  \<open>malloc\<close> either fails or returns a block of the requested size whose bytes are
  not initialised. Which of the two happens, and what the fresh block holds, is outside
  the program: \<open>None\<close> is a failing allocation, \<open>Some g\<close> one that succeeds with the
  byte \<open>g k\<close> at offset \<open>k\<close>.
\<close>

type_synonym heap = "(nat \<Rightarrow> byte) option"

definition malloc :: "heap \<Rightarrow> nat \<Rightarrow> mem option" where
  "malloc h n = (case h of None \<Rightarrow> None | Some g \<Rightarrow> Some (map g [0..<n]))"

text \<open>
  The loop of \<open>create_buf\<close>: \<open>for (i = 0; i < buflen / 2; ++i) ((uint16_t *)retbuf)[i] = i % 65536\<close>.
  The 16-bit word of index \<open>i\<close> starts at byte \<open>2 * i\<close>, which is inside the block for every
  \<open>i < buflen div 2\<close>.
\<close>

function fill_loop :: "mem \<Rightarrow> nat \<Rightarrow> nat \<Rightarrow> mem" where
  "fill_loop retbuf buflen i =
     (if i < buflen div 2
      then fill_loop (write_u16 retbuf (2 * i) (word_of_nat (i mod 65536))) buflen (i + 1)
      else retbuf)"
  by pat_completeness auto
termination
  by (relation "measure (\<lambda>(retbuf, buflen, i). buflen div 2 - i)") auto

declare fill_loop.simps [simp del]

definition create_buf :: "heap \<Rightarrow> nat \<Rightarrow> mem option" where
  "create_buf h buflen =
     (case malloc h buflen of
        None \<Rightarrow> None
      | Some retbuf \<Rightarrow> Some (fill_loop retbuf buflen 0))"

subsection \<open>check_buf\<close>

text \<open>
  One entry of the log per iteration of the loop: the address compared, the word read
  there and the word expected. An entry whose two words differ is the line
  \<open>"%p = %08x instead of %08x"\<close> of the source; the other entries are its
  \<open>"%p = %08x ok"\<close> lines.
\<close>

record cmp =
  c_addr :: nat
  c_actual :: "32 word"
  c_expect :: "32 word"

datatype check_result = Checked bool "cmp list" | Faulted fault

text \<open>
  \<open>count %= 65536\<close> on a \<open>uint16_t\<close>: the remainder is taken on the promoted value and
  stored back.
\<close>

definition wrap16 :: "16 word \<Rightarrow> 16 word" where
  "wrap16 c = word_of_nat (unat c mod 65536)"

text \<open>
  The four statements that compute \<open>expect\<close> and advance \<open>count\<close>:
  \<open>count %= 65536; expect = count++; count %= 65536; expect += (count++ << 16);\<close>
\<close>

definition next_expect :: "16 word \<Rightarrow> 32 word \<times> 16 word" where
  "next_expect count =
     (let count1 = wrap16 count;
          expect1 = ucast count1;
          count2 = count1 + 1;
          count3 = wrap16 count2;
          expect2 = expect1 + push_bit 16 (ucast count3);
          count4 = count3 + 1
      in (expect2, count4))"

text \<open>
  The loop \<open>for (i = 0; i < buflen / samplesize; i += stride)\<close>, with \<open>bound\<close> for
  \<open>buflen / samplesize\<close>. The sample of index \<open>i\<close> is read through a \<open>uint32_t *\<close>, so
  it is the four bytes at \<open>buf + 4 * i\<close>, whatever \<open>samplesize\<close> is. \<open>i += stride\<close> wraps
  at \<open>2 ^ 64\<close>. With \<open>stride = 0\<close> the loop never ends.
\<close>

partial_function (option) check_loop ::
  "mem \<Rightarrow> nat \<Rightarrow> nat \<Rightarrow> nat \<Rightarrow> nat \<Rightarrow> 16 word \<Rightarrow> bool \<Rightarrow> cmp list \<Rightarrow> check_result option"
where
  "check_loop m buf bound stride i count retval log =
     (if i < bound then
        (case read_u32 m (buf + 4 * i) of
           None \<Rightarrow> Some (Faulted OutOfBounds)
         | Some v \<Rightarrow>
             (let (expect, count') = next_expect count in
              check_loop m buf bound stride ((i + stride) mod 2 ^ 64) count'
                (if expect \<noteq> v then False else retval)
                (log @ [\<lparr>c_addr = buf + 4 * i, c_actual = v, c_expect = expect\<rparr>])))
      else Some (Checked retval log))"

text \<open>
  \<open>check_buf\<close>: a null \<open>buf\<close> is \<open>None\<close>. \<open>buflen / samplesize\<close> traps when
  \<open>samplesize\<close> is 0.
\<close>

definition check_buf ::
  "mem \<Rightarrow> nat option \<Rightarrow> nat \<Rightarrow> nat \<Rightarrow> nat \<Rightarrow> 16 word \<Rightarrow> check_result option"
where
  "check_buf m buf buflen samplesize stride count =
     (case buf of
        None \<Rightarrow> Some (Checked False [])
      | Some p \<Rightarrow>
          if samplesize = 0 then Some (Faulted DivByZero)
          else check_loop m p (buflen div samplesize) stride 0 count True [])"

subsection \<open>print_buf\<close>

text \<open>
  \<open>print_buf\<close> prints at most \<open>buflen\<close> bytes starting at \<open>buf\<close> and changes nothing.
  What it prints is not modelled. What is modelled is that it returns at once unless
  \<open>verbose\<close> is set, and that \<open>buflen / columns / CELL_WIDTH\<close> traps when \<open>columns\<close>,
  the smaller of \<open>num_columns\<close> and \<open>buflen / CELL_WIDTH\<close>, is 0.
\<close>

definition CELL_WIDTH :: nat where
  "CELL_WIDTH = 4"

definition NUM_COLUMNS :: nat where
  "NUM_COLUMNS = 8"

definition print_buf :: "bool \<Rightarrow> nat \<Rightarrow> nat \<Rightarrow> fault option" where
  "print_buf verbose buflen num_columns =
     (if \<not> verbose then None
      else (let columns = (if num_columns < buflen div CELL_WIDTH then num_columns
                           else buflen div CELL_WIDTH)
            in if columns = 0 then Some DivByZero else None))"

subsection \<open>The collaborators of helpers/interleave.h\<close>

text \<open>
  \<open>libbladeRF.h\<close> declares the two enumerations; these are the enumerators \<open>main\<close> uses.
\<close>

datatype bladerf_channel_layout =
  BLADERF_RX_X1 | BLADERF_TX_X1 | BLADERF_RX_X2 | BLADERF_TX_X2

datatype bladerf_format =
  BLADERF_FORMAT_SC16_Q11 | BLADERF_FORMAT_SC16_Q11_META

text \<open>
  The five functions \<open>test\<close> calls are defined in another file of libbladeRF. They are
  parameters of the model: three size queries, and the two transforms, which rewrite the
  block in place and return a status (the function maps the content of the block before
  the call to the status and the content after it).
\<close>

record interleaver =
  calc_bytes_per_sample :: "bladerf_format \<Rightarrow> nat"
  calc_metadata_bytes :: "bladerf_format \<Rightarrow> nat"
  calc_num_channels :: "bladerf_channel_layout \<Rightarrow> nat"
  interleave_buf :: "bladerf_channel_layout \<Rightarrow> bladerf_format \<Rightarrow> nat \<Rightarrow> mem \<Rightarrow> int \<times> mem"
  deinterleave_buf :: "bladerf_channel_layout \<Rightarrow> bladerf_format \<Rightarrow> nat \<Rightarrow> mem \<Rightarrow> int \<times> mem"

subsection \<open>test\<close>

text \<open>
  A run of \<open>test\<close> is observed through the events it leaves, in order: the allocation
  (with the size asked for and whether it succeeded), the two transforms with the status
  they returned, every call of \<open>check_buf\<close> with its arguments and result, tagged with the
  step that made it, and the release of the block.
\<close>

datatype step = Metadata | NoInterleave | Channel nat | Restored

datatype event =
    Malloc nat bool
  | Interleave int
  | Deinterleave int
  | Check step "nat option" nat nat nat "16 word" "check_result option"
  | Free

text \<open>
  \<open>test\<close> returns a status, or the process dies in a trap, or it never returns.
\<close>

datatype outcome = Returned int | Crashed fault | Hangs

text \<open>
  After a step, control goes on to the next statement (\<open>Next\<close>), jumps to the label
  \<open>error\<close> with \<open>status\<close> set (\<open>Goto_error\<close>), or the run is over (\<open>Stop\<close>).
\<close>

datatype flow = Next | Goto_error int | Stop outcome

type_synonym stepres = "flow \<times> event list"

definition andthen :: "stepres \<Rightarrow> stepres \<Rightarrow> stepres" where
  "andthen a b = (case fst a of Next \<Rightarrow> (fst b, snd a @ snd b) | _ \<Rightarrow> a)"

definition steps :: "stepres list \<Rightarrow> stepres" where
  "steps xs = foldr andthen xs (Next, [])"

definition print_step :: "fault option \<Rightarrow> stepres" where
  "print_step r = (case r of None \<Rightarrow> (Next, []) | Some f \<Rightarrow> (Stop (Crashed f), []))"

text \<open>\<open>status = ...; if (status != 0) goto error;\<close>\<close>

definition transform_step :: "(int \<Rightarrow> event) \<Rightarrow> int \<Rightarrow> stepres" where
  "transform_step ev status = (if status \<noteq> 0 then Goto_error status else Next, [ev status])"

text \<open>\<open>if (!check_buf(...)) { status = -1; goto error; }\<close>\<close>

definition check_step ::
  "step \<Rightarrow> mem \<Rightarrow> nat \<Rightarrow> nat \<Rightarrow> nat \<Rightarrow> nat \<Rightarrow> 16 word \<Rightarrow> stepres"
where
  "check_step st m p buflen samplesize stride count =
     (let r = check_buf m (Some p) buflen samplesize stride count
      in ((case r of
             None \<Rightarrow> Stop Hangs
           | Some (Faulted f) \<Rightarrow> Stop (Crashed f)
           | Some (Checked ok log) \<Rightarrow> if ok then Next else Goto_error (- 1)),
          [Check st (Some p) buflen samplesize stride count r]))"

text \<open>
  The memory dump before the first channel: with both flags off, \<open>verbose\<close> is set for
  the dump and cleared after it.
\<close>

definition dump_step :: "bool \<Rightarrow> bool \<Rightarrow> nat \<Rightarrow> nat \<Rightarrow> stepres" where
  "dump_step verbose quiet bytes i =
     (if \<not> verbose \<and> \<not> quiet \<and> 0 = i
      then (if bytes > 64 * 2
            then steps [print_step (print_buf True 48 2), print_step (print_buf True 48 2)]
            else print_step (print_buf True bytes 2))
      else (Next, []))"

text \<open>
  The loop over the channels, \<open>for (i = 0; i < num_chan; ++i)\<close>. \<open>bytes - offset\<close> and
  \<open>buflen / num_chan\<close> are exact and \<open>offset + i * (buflen / num_chan)\<close> does not exceed
  \<open>bytes\<close>, since \<open>test\<close> has checked \<open>offset \<le> bytes\<close> and \<open>1 \<le> num_chan\<close> before
  (lemma \<open>chan_offset_bounded\<close> below). \<open>samplesize * i\<close> is taken without wrap-around: \<open>i\<close> is below the channel count, which
  is 1 or 2 for the layouts of libbladeRF.
\<close>

function chan_loop ::
  "bool \<Rightarrow> bool \<Rightarrow> mem \<Rightarrow> nat \<Rightarrow> nat \<Rightarrow> nat \<Rightarrow> nat \<Rightarrow> nat \<Rightarrow> stepres"
where
  "chan_loop verbose quiet buf samplesize offset num_chan bytes i =
     (if i < num_chan then
        (let bufptr = offset + samplesize * i;
             buflen = bytes - offset;
             startval = word_of_nat (((offset + i * (buflen div num_chan)) div 2) mod 65536)
         in andthen (dump_step verbose quiet bytes i)
              (andthen (check_step (Channel i) buf bufptr buflen samplesize num_chan startval)
                 (chan_loop verbose quiet buf samplesize offset num_chan bytes (i + 1))))
      else (Next, []))"
  by pat_completeness auto
termination
  by (relation "measure (\<lambda>(verbose, quiet, buf, samplesize, offset, num_chan, bytes, i). num_chan - i)")
     auto

declare chan_loop.simps [simp del]

text \<open>
  The label \<open>error\<close>: \<open>free(buf); return status;\<close>. When control falls through to it,
  \<open>status\<close> is what the deinterleaver returned, which is 0 there.
\<close>

definition at_error :: "stepres \<Rightarrow> outcome \<times> event list" where
  "at_error r =
     (case fst r of
        Next \<Rightarrow> (Returned 0, snd r @ [Free])
      | Goto_error status \<Rightarrow> (Returned status, snd r @ [Free])
      | Stop out \<Rightarrow> (out, snd r))"

text \<open>
  \<open>verbose\<close> and \<open>quiet\<close> are the two global flags; \<open>hp\<close> is what \<open>malloc\<close> does when
  \<open>create_buf\<close> calls it.
\<close>

definition test ::
  "interleaver \<Rightarrow> bool \<Rightarrow> bool \<Rightarrow> heap \<Rightarrow> bladerf_channel_layout \<Rightarrow> bladerf_channel_layout
   \<Rightarrow> bladerf_format \<Rightarrow> nat \<Rightarrow> outcome \<times> event list"
where
  "test h verbose quiet hp rxlay txlay format num_samples =
     (let samplesize = calc_bytes_per_sample h format;
          offset = calc_metadata_bytes h format;
          num_chan = calc_num_channels h rxlay;
          bytes = (samplesize * num_samples) mod 2 ^ 64
      in if num_chan \<noteq> calc_num_channels h txlay then (Returned (- 1), [])
         else if bytes < offset then (Returned (- 1), [])
         else if num_chan < 1 then (Returned (- 1), [])
         else (case create_buf hp bytes of
                 None \<Rightarrow> (Returned (- 1), [Malloc bytes False])
               | Some buf0 \<Rightarrow>
                   (let (status1, buf1) = interleave_buf h txlay format num_samples buf0;
                        (status2, buf2) = deinterleave_buf h rxlay format num_samples buf1
                    in at_error (steps
                         [(Next, [Malloc bytes True]),
                          print_step (print_buf verbose bytes NUM_COLUMNS),
                          transform_step Interleave status1,
                          print_step (print_buf verbose bytes NUM_COLUMNS),
                          (if offset > 0
                           then steps [print_step (print_buf verbose offset NUM_COLUMNS),
                                       check_step Metadata buf1 0 offset samplesize 1 0]
                           else (Next, [])),
                          (if num_chan = 1
                           then check_step NoInterleave buf1 0 bytes samplesize 1 0
                           else (Next, [])),
                          chan_loop verbose quiet buf1 samplesize offset num_chan bytes 0,
                          transform_step Deinterleave status2,
                          print_step (print_buf verbose bytes NUM_COLUMNS),
                          check_step Restored buf2 0 bytes samplesize 1 0]))))"

subsection \<open>main\<close>



section \<open>Auxiliary definitions\<close>

text \<open>
  Names used to state and prove the properties below. None of them is part of the
  program.
\<close>

text \<open>
  Reading the log. \<open>word_at\<close> is the 32-bit word at an address inside the block,
  \<open>cmp_ok\<close> tells an entry that matched, and \<open>scan_entry m buf d c k\<close> is the entry of
  the \<open>k\<close>-th iteration of a scan that starts at \<open>buf\<close> with stride \<open>d\<close> and count \<open>c\<close>.
\<close>

definition word_at :: "mem \<Rightarrow> nat \<Rightarrow> 32 word" where
  "word_at m a = (case read_u32 m a of None \<Rightarrow> 0 | Some v \<Rightarrow> v)"

definition cmp_ok :: "cmp \<Rightarrow> bool" where
  "cmp_ok e = (c_actual e = c_expect e)"

definition scan_entry :: "mem \<Rightarrow> nat \<Rightarrow> nat \<Rightarrow> 16 word \<Rightarrow> nat \<Rightarrow> cmp" where
  "scan_entry m buf d c k =
     \<lparr>c_addr = buf + 4 * (k * d),
      c_actual = word_at m (buf + 4 * (k * d)),
      c_expect = ucast (c + 2 * word_of_nat k) + push_bit 16 (ucast (c + 2 * word_of_nat k + 1))\<rparr>"

text \<open>
  The three checks \<open>test\<close> makes between the two transforms, taken together.
\<close>

definition mid_checks :: "bool \<Rightarrow> bool \<Rightarrow> mem \<Rightarrow> nat \<Rightarrow> nat \<Rightarrow> nat \<Rightarrow> nat \<Rightarrow> stepres" where
  "mid_checks verbose quiet buf1 samplesize offset num_chan bytes =
     steps [(if offset > 0
             then steps [print_step (print_buf verbose offset NUM_COLUMNS),
                         check_step Metadata buf1 0 offset samplesize 1 0]
             else (Next, [])),
            (if num_chan = 1
             then check_step NoInterleave buf1 0 bytes samplesize 1 0
             else (Next, [])),
            chan_loop verbose quiet buf1 samplesize offset num_chan bytes 0]"

definition is_check :: "event \<Rightarrow> bool" where
  "is_check e = (case e of Check st p l ss sd c r \<Rightarrow> True | _ \<Rightarrow> False)"

text \<open>
  What a step that only prints and checks can do to the control flow: go on, jump to
  \<open>error\<close> with status -1, trap or hang.
\<close>

definition check_flow :: "flow \<Rightarrow> bool" where
  "check_flow f = (case f of Next \<Rightarrow> True | Goto_error s \<Rightarrow> s = - 1
                   | Stop (Returned s) \<Rightarrow> False | Stop _ \<Rightarrow> True)"



text \<open>
  An instance of the collaborators, for running the model on concrete inputs: four bytes
  per sample, sixteen bytes of metadata in the metadata format, one or two channels, and
  transforms that leave the block as it is and return a chosen status.
\<close>

definition stub_interleaver :: "(bladerf_channel_layout \<Rightarrow> int) \<Rightarrow> int \<Rightarrow> interleaver" where
  "stub_interleaver fwd_status inv_status =
     \<lparr>calc_bytes_per_sample = (\<lambda>format. 4),
      calc_metadata_bytes = (\<lambda>format. case format of BLADERF_FORMAT_SC16_Q11 \<Rightarrow> 0
                                       | BLADERF_FORMAT_SC16_Q11_META \<Rightarrow> 16),
      calc_num_channels = (\<lambda>layout. case layout of BLADERF_RX_X1 \<Rightarrow> 1 | BLADERF_TX_X1 \<Rightarrow> 1
                                       | BLADERF_RX_X2 \<Rightarrow> 2 | BLADERF_TX_X2 \<Rightarrow> 2),
      interleave_buf = (\<lambda>layout format n m. (fwd_status layout, m)),
      deinterleave_buf = (\<lambda>layout format n m. (inv_status, m))\<rparr>"

section \<open>Words and memory\<close>

lemma length_write_u16: "length (write_u16 m a v) = length m"
  by (simp add: write_u16_def)

lemma bytes_u16:
  fixes v :: "16 word"
  shows "(ucast (ucast v :: 8 word) :: 16 word) + push_bit 8 (ucast (ucast (drop_bit 8 v) :: 8 word)) = v"
proof -
  have "(ucast (ucast v :: 8 word) :: 16 word) + push_bit 8 (ucast (ucast (drop_bit 8 v) :: 8 word))
      = (ucast (ucast v :: 8 word) :: 16 word) OR push_bit 8 (ucast (ucast (drop_bit 8 v) :: 8 word))"
    by (rule disjunctive_add) (auto simp add: bit_simps dest: bit_imp_le_length)
  also have "\<dots> = v"
    by (rule bit_word_eqI) (auto simp add: bit_simps dest: bit_imp_le_length)
  finally show ?thesis .
qed

lemma wrap16_id: "wrap16 c = c"
proof -
  have "unat c < 65536" using unsigned_less [of c, where 'a = nat] by simp
  then show ?thesis by (simp add: wrap16_def)
qed

lemma halves_OR:
  fixes lo hi :: "16 word"
  shows "(ucast lo :: 32 word) + push_bit 16 (ucast hi) = ucast lo OR push_bit 16 (ucast hi)"
  by (rule disjunctive_add) (auto simp add: bit_simps dest: bit_imp_le_length)

lemma halves_lo:
  fixes lo hi :: "16 word"
  shows "ucast ((ucast lo :: 32 word) + push_bit 16 (ucast hi)) = lo"
  unfolding halves_OR by (rule bit_word_eqI) (auto simp add: bit_simps dest: bit_imp_le_length)

lemma halves_hi:
  fixes lo hi :: "16 word"
  shows "ucast (drop_bit 16 ((ucast lo :: 32 word) + push_bit 16 (ucast hi))) = hi"
  unfolding halves_OR by (rule bit_word_eqI) (auto simp add: bit_simps dest: bit_imp_le_length)

lemma halves_eq_iff:
  fixes lo hi lo' hi' :: "16 word"
  shows "((ucast lo :: 32 word) + push_bit 16 (ucast hi) = ucast lo' + push_bit 16 (ucast hi'))
         \<longleftrightarrow> lo = lo' \<and> hi = hi'"
  by (metis halves_lo halves_hi)

lemma u32_of_bytes:
  fixes b0 b1 b2 b3 :: "8 word"
  shows "(ucast b0 :: 32 word) + push_bit 8 (ucast b1) + push_bit 16 (ucast b2) + push_bit 24 (ucast b3)
       = ucast ((ucast b0 :: 16 word) + push_bit 8 (ucast b1))
         + push_bit 16 (ucast ((ucast b2 :: 16 word) + push_bit 8 (ucast b3)))"
proof -
  have a: "(ucast b0 :: 16 word) + push_bit 8 (ucast b1) = ucast b0 OR push_bit 8 (ucast b1)" for b0 b1 :: "8 word"
    by (rule disjunctive_add) (auto simp add: bit_simps dest: bit_imp_le_length)
  have b: "(ucast b0 :: 32 word) + push_bit 8 (ucast b1) = ucast b0 OR push_bit 8 (ucast b1)"
    by (rule disjunctive_add) (auto simp add: bit_simps dest: bit_imp_le_length)
  have c: "((ucast b0 :: 32 word) OR push_bit 8 (ucast b1)) + push_bit 16 (ucast b2)
         = (ucast b0 OR push_bit 8 (ucast b1)) OR push_bit 16 (ucast b2)"
    by (rule disjunctive_add) (auto simp add: bit_simps dest: bit_imp_le_length)
  have d: "(((ucast b0 :: 32 word) OR push_bit 8 (ucast b1)) OR push_bit 16 (ucast b2)) + push_bit 24 (ucast b3)
         = ((ucast b0 OR push_bit 8 (ucast b1)) OR push_bit 16 (ucast b2)) OR push_bit 24 (ucast b3)"
    by (rule disjunctive_add) (auto simp add: bit_simps dest: bit_imp_le_length)
  show ?thesis
    unfolding halves_OR a b c d
    by (rule bit_word_eqI) (auto simp add: bit_simps dest: bit_imp_le_length)
qed

lemma read_u16_write_u16_same:
  "a + 2 \<le> length m \<Longrightarrow> read_u16 (write_u16 m a v) a = Some v"
  by (simp add: read_u16_def write_u16_def bytes_u16)

lemma read_u16_write_u16_other:
  "b + 2 \<le> a \<or> a + 2 \<le> b \<Longrightarrow> read_u16 (write_u16 m a v) b = read_u16 m b"
  by (auto simp add: read_u16_def write_u16_def)

lemma read_u32_halves:
  "read_u32 m a =
     (case read_u16 m a of None \<Rightarrow> None
      | Some lo \<Rightarrow> (case read_u16 m (a + 2) of None \<Rightarrow> None
          | Some hi \<Rightarrow> Some (ucast lo + push_bit 16 (ucast hi))))"
  by (auto simp add: read_u32_def read_u16_def u32_of_bytes numeral_3_eq_3)

lemma next_expect_eq:
  "next_expect c = (ucast c + push_bit 16 (ucast (c + 1)), c + 2)"
  by (simp add: next_expect_def wrap16_id Let_def)

lemma ceil_div_iff: "1 \<le> d \<Longrightarrow> (k < (b + d - 1) div d) = (k * d < (b::nat))"
proof -
  assume d: "1 \<le> d"
  have "(k < (b + d - 1) div d) = (Suc k \<le> (b + d - 1) div d)" by auto
  also have "\<dots> = (Suc k * d \<le> b + d - 1)" using d by (simp add: less_eq_div_iff_mult_less_eq)
  also have "\<dots> = (k * d < b)" using d by auto
  finally show ?thesis .
qed

lemma word16_of_nat_mod: "(word_of_nat (i mod 65536) :: 16 word) = word_of_nat i"
  by (simp add: word_of_nat_eq_iff take_bit_eq_mod)

lemma expect_halves:
  fixes c :: "16 word"
  shows "(ucast (c + 2 * word_of_nat k) :: 32 word) + push_bit 16 (ucast (c + 2 * word_of_nat k + 1))
       = word_of_nat ((unat c + 2 * k) mod 65536 + 65536 * ((unat c + 2 * k + 1) mod 65536))"
proof -
  have a: "c + 2 * word_of_nat k = word_of_nat (unat c + 2 * k)" by simp
  have lo: "unat (c + 2 * word_of_nat k) = (unat c + 2 * k) mod 65536"
    unfolding a unat_of_nat by simp
  have b: "c + 2 * word_of_nat k + 1 = word_of_nat (unat c + 2 * k + 1)" by simp
  have hi: "unat (c + 2 * word_of_nat k + 1) = (unat c + 2 * k + 1) mod 65536"
    unfolding b unat_of_nat by simp
  have uc: "(ucast x :: 32 word) = word_of_nat (unat x)" for x :: "16 word"
    by simp
  show ?thesis
    unfolding uc lo hi push_bit_eq_mult by simp
qed

section \<open>The pattern create_buf writes\<close>

lemma length_fill_loop: "length (fill_loop m n i) = length m"
proof (induction m n i rule: fill_loop.induct)
  case (1 retbuf buflen i)
  show ?case
    using 1 by (subst fill_loop.simps) (auto simp add: length_write_u16)
qed

lemma read_u16_fill_loop:
  "n \<le> length m \<Longrightarrow> j < n div 2 \<Longrightarrow>
   read_u16 (fill_loop m n i) (2 * j) =
     (if i \<le> j then Some (word_of_nat (j mod 65536)) else read_u16 m (2 * j))"
proof (induction m n i rule: fill_loop.induct)
  case (1 retbuf buflen i)
  show ?case
  proof (cases "i < buflen div 2")
    case True
    have len: "buflen \<le> length (write_u16 retbuf (2 * i) (word_of_nat (i mod 65536)))"
      using "1.prems" by (simp add: length_write_u16)
    have inb: "2 * i + 2 \<le> length retbuf" using True "1.prems" by auto
    have step: "fill_loop retbuf buflen i
        = fill_loop (write_u16 retbuf (2 * i) (word_of_nat (i mod 65536))) buflen (i + 1)"
      using True by (subst fill_loop.simps) simp
    show ?thesis
      unfolding step "1.IH" [OF True len "1.prems"(2)]
      using inb by (cases "j = i") (auto simp add: read_u16_write_u16_same read_u16_write_u16_other)
  next
    case False
    then have "fill_loop retbuf buflen i = retbuf" by (subst fill_loop.simps) simp
    then show ?thesis using False "1.prems" by simp
  qed
qed

lemma create_buf_Some:
  "create_buf (Some g) buflen = Some m \<Longrightarrow>
   length m = buflen \<and> (\<forall>i<buflen div 2. read_u16 m (2 * i) = Some (word_of_nat (i mod 65536)))"
  by (auto simp add: create_buf_def malloc_def length_fill_loop read_u16_fill_loop)

lemma create_buf_alloc: "create_buf (Some g) n = Some (fill_loop (map g [0..<n]) n 0)"
  by (simp add: create_buf_def malloc_def)


lemma fill_loop_step:
  "i < buflen div 2 \<Longrightarrow>
   fill_loop retbuf buflen i =
     fill_loop (write_u16 retbuf (2 * i) (word_of_nat (i mod 65536))) buflen (Suc i)"
  by (subst fill_loop.simps) simp

lemma fill_loop_end: "\<not> i < buflen div 2 \<Longrightarrow> fill_loop retbuf buflen i = retbuf"
  by (subst fill_loop.simps) simp

lemma create_buf_4: "create_buf (Some (\<lambda>k. 0)) 4 = Some [0, 0, 1, 0]"
  by (simp add: create_buf_alloc fill_loop_step fill_loop_end write_u16_def upt_rec)

lemma create_buf_6: "create_buf (Some (\<lambda>k. 0)) 6 = Some [0, 0, 1, 0, 2, 0]"
  by (simp add: create_buf_alloc fill_loop_step fill_loop_end write_u16_def upt_rec)

lemma create_buf_8: "create_buf (Some (\<lambda>k. 0)) 8 = Some [0, 0, 1, 0, 2, 0, 3, 0]"
  by (simp add: create_buf_alloc fill_loop_step fill_loop_end write_u16_def upt_rec)

section \<open>The scan of check_buf\<close>

text \<open>
  One iteration of the loop, as three rewrite rules: the loop is over, the sample is
  inside the block, or it is not.
\<close>

lemma check_loop_done:
  "\<not> i < bound \<Longrightarrow> check_loop m buf bound stride i count retval log = Some (Checked retval log)"
  by (subst check_loop.simps) simp

lemma check_loop_step:
  "i < bound \<Longrightarrow> buf + 4 * i + 4 \<le> length m \<Longrightarrow>
   check_loop m buf bound stride i count retval log =
   check_loop m buf bound stride ((i + stride) mod 2 ^ 64) (count + 2)
     (retval \<and> word_at m (buf + 4 * i) = ucast count + push_bit 16 (ucast (count + 1)))
     (log @ [\<lparr>c_addr = buf + 4 * i, c_actual = word_at m (buf + 4 * i),
              c_expect = ucast count + push_bit 16 (ucast (count + 1))\<rparr>])"
  apply (subst check_loop.simps)
  apply (auto simp add: word_at_def read_u32_def next_expect_eq)
  done

lemma check_loop_fault:
  "i < bound \<Longrightarrow> \<not> buf + 4 * i + 4 \<le> length m \<Longrightarrow>
   check_loop m buf bound stride i count retval log = Some (Faulted OutOfBounds)"
  by (subst check_loop.simps) (simp add: read_u32_def)

text \<open>
  The loop from its \<open>k\<close>-th iteration on, when the stride is positive and every sample
  it inspects is inside the block. The counter cannot wrap: after the first iteration it
  is at least the stride, and at most a quarter of the size of the block.
\<close>

lemma check_loop_scan:
  assumes d: "1 \<le> d" "d < 2 ^ 64" and len: "length m \<le> 2 ^ 64"
    and inb: "\<And>k. k * d < bound \<Longrightarrow> buf + 4 * (k * d) + 4 \<le> length m"
    and n: "\<And>k. (k < n) = (k * d < bound)"
  shows "k \<le> n \<Longrightarrow>
     check_loop m buf bound d (k * d) (c + 2 * word_of_nat k) rv log =
     Some (Checked (rv \<and> list_all cmp_ok (map (scan_entry m buf d c) [k..<n]))
                   (log @ map (scan_entry m buf d c) [k..<n]))"
proof (induction "n - k" arbitrary: k rv log)
  case 0
  then have "k = n" by simp
  then have "\<not> k * d < bound" using n [of k] by simp
  then show ?case using \<open>k = n\<close> by (simp add: check_loop_done)
next
  case (Suc x)
  then have kn: "k < n" by simp
  then have lt: "k * d < bound" using n [of k] by simp
  have inb_k: "buf + 4 * (k * d) + 4 \<le> length m" using inb [OF lt] .
  have nowrap: "k * d + d < 2 ^ 64"
  proof (cases "k = 0")
    case True
    then show ?thesis using d by simp
  next
    case False
    then have "d \<le> k * d" by simp
    moreover have "4 * (k * d) + 4 \<le> (2 ^ 64 :: nat)" using inb_k len by linarith
    ultimately show ?thesis by linarith
  qed
  then have idx: "(k * d + d) mod 2 ^ 64 = Suc k * d" by simp
  have cnt: "c + 2 * word_of_nat k + 2 = c + 2 * word_of_nat (Suc k)" by simp
  have IH: "check_loop m buf bound d (Suc k * d) (c + 2 * word_of_nat (Suc k)) rv' log' =
     Some (Checked (rv' \<and> list_all cmp_ok (map (scan_entry m buf d c) [Suc k..<n]))
                   (log' @ map (scan_entry m buf d c) [Suc k..<n]))" for rv' log'
    using Suc.hyps(1) [of "Suc k"] Suc.hyps(2) kn by simp
  show ?case
    unfolding check_loop_step [OF lt inb_k] idx cnt IH upt_conv_Cons [OF kn]
    by (auto simp add: scan_entry_def cmp_ok_def)
qed

lemma check_buf_total:
  assumes "1 \<le> samplesize" "1 \<le> d" "d < 2 ^ 64" "length m \<le> 2 ^ 64"
    and "\<forall>k. k * d < buflen div samplesize \<longrightarrow> p + 4 * (k * d) + 4 \<le> length m"
  shows "check_buf m (Some p) buflen samplesize d c =
     Some (Checked (list_all cmp_ok (map (scan_entry m p d c) [0..<(buflen div samplesize + d - 1) div d]))
                   (map (scan_entry m p d c) [0..<(buflen div samplesize + d - 1) div d]))"
proof -
  have "check_loop m p (buflen div samplesize) d (0 * d) (c + 2 * word_of_nat 0) True [] =
     Some (Checked (True \<and> list_all cmp_ok (map (scan_entry m p d c) [0..<(buflen div samplesize + d - 1) div d]))
                   ([] @ map (scan_entry m p d c) [0..<(buflen div samplesize + d - 1) div d]))"
    using assms ceil_div_iff [OF assms(2)] by (intro check_loop_scan) simp_all
  then show ?thesis using assms(1) by (simp add: check_buf_def)
qed

text \<open>
  With stride 0 the loop inspects the same sample for ever.
\<close>

lemma check_loop_stride0_Some:
  assumes "check_loop m buf bound stride i count retval log = Some y"
  shows "\<not> (stride = 0 \<and> i < bound \<and> i < 2 ^ 64 \<and> buf + 4 * i + 4 \<le> length m)"
proof (rule check_loop.raw_induct
    [where P = "\<lambda>m buf bound stride i count retval log y.
                  \<not> (stride = 0 \<and> i < bound \<and> i < 2 ^ 64 \<and> buf + 4 * i + 4 \<le> length m)",
     OF _ assms])
  fix check_loop' m buf bound stride i count retval log y
  assume IH: "\<And>m buf bound stride i count retval log y.
      check_loop' m buf bound stride i count retval log = Some y \<Longrightarrow>
      \<not> (stride = 0 \<and> i < bound \<and> i < 2 ^ 64 \<and> buf + 4 * i + 4 \<le> length m)"
    and body: "(if i < bound then
        (case read_u32 m (buf + 4 * i) of
           None \<Rightarrow> Some (Faulted OutOfBounds)
         | Some v \<Rightarrow>
             (let (expect, count') = next_expect count in
              check_loop' m buf bound stride ((i + stride) mod 2 ^ 64) count'
                (if expect \<noteq> v then False else retval)
                (log @ [\<lparr>c_addr = buf + 4 * i, c_actual = v, c_expect = expect\<rparr>])))
      else Some (Checked retval log)) = Some y"
  show "\<not> (stride = 0 \<and> i < bound \<and> i < 2 ^ 64 \<and> buf + 4 * i + 4 \<le> length m)"
  proof
    assume c: "stride = 0 \<and> i < bound \<and> i < 2 ^ 64 \<and> buf + 4 * i + 4 \<le> length m"
    then have "\<exists>c' r' l'. check_loop' m buf bound stride i c' r' l' = Some y"
      using body by (auto simp add: read_u32_def split: prod.splits)
    then show False using IH c by blast
  qed
qed

lemma check_loop_stride0:
  "i < bound \<Longrightarrow> i < 2 ^ 64 \<Longrightarrow> buf + 4 * i + 4 \<le> length m \<Longrightarrow>
   check_loop m buf bound 0 i count retval log = None"
  using check_loop_stride0_Some [of m buf bound 0 i count retval log] by (cases "check_loop m buf bound 0 i count retval log") auto

text \<open>
  A buffer of \<open>create_buf\<close> with one 16-bit word overwritten.
\<close>

lemma filter_eq_upt: "a < n \<Longrightarrow> filter (\<lambda>k. k = a) [0..<n] = [a]"
proof (induction n)
  case 0
  then show ?case by simp
next
  case (Suc n)
  show ?case
  proof (cases "a = n")
    case True
    have "filter (\<lambda>k. k = n) [0..<n] = []" by (simp add: filter_empty_conv)
    then show ?thesis using True by simp
  next
    case False
    then show ?thesis using Suc by simp
  qed
qed

lemma corrupted_read_u16:
  assumes m: "create_buf (Some g) buflen = Some m" and i: "i < buflen div 2" and j: "j < buflen div 2"
  shows "read_u16 (write_u16 m (2 * j) v) (2 * i) = Some (if i = j then v else word_of_nat i)"
proof -
  have len: "length m = buflen"
    and pat: "read_u16 m (2 * i) = Some (word_of_nat i)"
    using create_buf_Some [OF m] i by (simp_all add: word16_of_nat_mod)
  show ?thesis
  proof (cases "i = j")
    case True
    then show ?thesis using len j by (simp add: read_u16_write_u16_same)
  next
    case False
    then have "2 * i + 2 \<le> 2 * j \<or> 2 * j + 2 \<le> 2 * i" by arith
    then show ?thesis using False pat by (simp add: read_u16_write_u16_other)
  qed
qed

lemma corrupted_word_at:
  assumes m: "create_buf (Some g) buflen = Some m" and k: "k < buflen div 4" and j: "j < 2 * (buflen div 4)"
  shows "word_at (write_u16 m (2 * j) v) (4 * k) =
     ucast (if 2 * k = j then v else word_of_nat (2 * k))
     + push_bit 16 (ucast (if 2 * k + 1 = j then v else word_of_nat (2 * k + 1)))"
proof -
  have a: "read_u16 (write_u16 m (2 * j) v) (2 * (2 * k)) = Some (if 2 * k = j then v else word_of_nat (2 * k))"
    using k j by (intro corrupted_read_u16 [OF m]) auto
  have b: "read_u16 (write_u16 m (2 * j) v) (2 * (2 * k + 1)) = Some (if 2 * k + 1 = j then v else word_of_nat (2 * k + 1))"
    using k j by (intro corrupted_read_u16 [OF m]) auto
  have a': "read_u16 (write_u16 m (2 * j) v) (4 * k) = Some (if 2 * k = j then v else word_of_nat (2 * k))"
    using a by (simp add: algebra_simps)
  have b': "read_u16 (write_u16 m (2 * j) v) (4 * k + 2) = Some (if 2 * k + 1 = j then v else word_of_nat (2 * k + 1))"
    using b by (simp add: algebra_simps)
  show ?thesis
    unfolding word_at_def read_u32_halves a' b' by simp
qed

lemma corrupted_cmp_ok:
  assumes m: "create_buf (Some g) buflen = Some m" and k: "k < buflen div 4" and j: "j < 2 * (buflen div 4)"
    and v: "v \<noteq> word_of_nat j"
  shows "cmp_ok (scan_entry (write_u16 m (2 * j) v) 0 1 0 k) = (k \<noteq> j div 2)"
proof -
  have e: "(2 :: 16 word) * word_of_nat k = word_of_nat (2 * k)"
    "(2 :: 16 word) * word_of_nat k + 1 = word_of_nat (2 * k + 1)" by simp_all
  have "cmp_ok (scan_entry (write_u16 m (2 * j) v) 0 1 0 k) =
     ((if 2 * k = j then v else word_of_nat (2 * k)) = (word_of_nat (2 * k) :: 16 word)
      \<and> (if 2 * k + 1 = j then v else word_of_nat (2 * k + 1)) = (word_of_nat (2 * k + 1) :: 16 word))"
    unfolding cmp_ok_def scan_entry_def
    using corrupted_word_at [OF m k j, of v] e
    by (auto simp add: halves_eq_iff ac_simps)
  also have "\<dots> = (k \<noteq> j div 2)"
    using v by auto
  finally show ?thesis .
qed

lemma upt_2: "[0..<2] = [0, 1]"
  by (simp add: upt_rec)

lemma count_is_2:
  assumes "\<forall>k. (k < n) = (k * d < b)" and "1 * d < b" and "\<not> 2 * d < (b :: nat)"
  shows "n = 2"
proof -
  have "1 < n" using assms(1) [rule_format, of 1] assms(2) by simp
  moreover have "\<not> 2 < n" using assms(1) [rule_format, of 2] assms(3) by simp
  ultimately show ?thesis by simp
qed

section \<open>The steps of test\<close>

lemma andthen_Next: "andthen (Next, tr) b = (fst b, tr @ snd b)"
  by (simp add: andthen_def)

lemma andthen_Goto: "andthen (Goto_error s, tr) b = (Goto_error s, tr)"
  by (simp add: andthen_def)

lemma andthen_Stop: "andthen (Stop out, tr) b = (Stop out, tr)"
  by (simp add: andthen_def)

lemma steps_Nil: "steps [] = (Next, [])"
  by (simp add: steps_def)

lemma steps_Cons: "steps (x # xs) = andthen x (steps xs)"
  by (simp add: steps_def)

lemma andthen_cases:
  "(fst a = Next \<and> andthen a b = (fst b, snd a @ snd b)) \<or> (fst a \<noteq> Next \<and> andthen a b = a)"
  by (cases a; cases "fst a") (auto simp add: andthen_def)

lemma andthen_assoc: "andthen (andthen a b) c = andthen a (andthen b c)"
  by (cases a; cases "fst a"; cases b; cases "fst b") (auto simp add: andthen_def)

lemma andthen_unit: "andthen a (Next, []) = a"
  by (cases a; cases "fst a") (auto simp add: andthen_def)

lemma set_snd_andthen: "set (snd (andthen a b)) \<subseteq> set (snd a) \<union> set (snd b)"
  using andthen_cases [of a b] by auto

lemma set_snd_steps: "set (snd (steps xs)) \<subseteq> (\<Union>x\<in>set xs. set (snd x))"
proof (induction xs)
  case Nil
  show ?case by (simp add: steps_Nil)
next
  case (Cons x xs)
  show ?case
    using set_snd_andthen [of x "steps xs"] Cons by (auto simp add: steps_Cons)
qed

lemma steps_all_Next:
  "fst (steps xs) = Next \<Longrightarrow> list_all (\<lambda>x. fst x = Next) xs \<and> snd (steps xs) = concat (map snd xs)"
proof (induction xs)
  case Nil
  show ?case by (simp add: steps_Nil)
next
  case (Cons x xs)
  from Cons.prems have "fst (andthen x (steps xs)) = Next" by (simp add: steps_Cons)
  then have x: "fst x = Next" and a: "andthen x (steps xs) = (fst (steps xs), snd x @ snd (steps xs))"
    using andthen_cases [of x "steps xs"] by auto
  then have "fst (steps xs) = Next" using \<open>fst (andthen x (steps xs)) = Next\<close> by simp
  then show ?case using Cons.IH x a by (simp add: steps_Cons)
qed

lemma snd_print_step: "snd (print_step r) = []"
  by (simp add: print_step_def split: option.split)

lemma snd_check_step:
  "snd (check_step st m p buflen samplesize stride count)
     = [Check st (Some p) buflen samplesize stride count (check_buf m (Some p) buflen samplesize stride count)]"
  by (simp add: check_step_def Let_def)

lemma snd_dump_step: "snd (dump_step verbose quiet bytes i) = []"
  by (simp add: dump_step_def steps_Cons steps_Nil andthen_def snd_print_step split: flow.split)

lemma transform_step_fail: "s \<noteq> 0 \<Longrightarrow> transform_step ev s = (Goto_error s, [ev s])"
  by (simp add: transform_step_def)

lemma transform_step_ok: "transform_step ev 0 = (Next, [ev 0])"
  by (simp add: transform_step_def)

lemma print_step_cases:
  obtains "print_step r = (Next, [])" | f where "print_step r = (Stop (Crashed f), [])"
  by (cases r) (auto simp add: print_step_def)


lemma at_error_Next: "at_error (Next, tr) = (Returned 0, tr @ [Free])"
  by (simp add: at_error_def)

lemma at_error_Goto: "at_error (Goto_error s, tr) = (Returned s, tr @ [Free])"
  by (simp add: at_error_def)

lemma at_error_Stop: "at_error (Stop out, tr) = (out, tr)"
  by (simp add: at_error_def)

lemma at_error_returned:
  "check_flow fl \<Longrightarrow> at_error (fl, tr) = (Returned status, tr') \<Longrightarrow> tr' = tr @ [Free]"
  by (cases fl) (auto simp add: at_error_def check_flow_def split: outcome.splits)

lemma at_error_events: "set (snd (at_error (fl, tr))) \<subseteq> insert Free (set tr)"
  by (cases fl) (auto simp add: at_error_def)

lemma at_error_returned_zero:
  "check_flow fl \<Longrightarrow> at_error (fl, tr) = (Returned 0, tr') \<Longrightarrow> fl = Next"
  by (cases fl) (auto simp add: at_error_def check_flow_def split: outcome.splits)



lemma is_check_simps:
  "\<not> is_check Free" "\<not> is_check (Malloc n b)" "\<not> is_check (Interleave s)" "\<not> is_check (Deinterleave s)"
  "is_check (Check st p l ss sd c r)"
  by (simp_all add: is_check_def)

lemma not_is_check_in:
  "list_all is_check cs \<Longrightarrow> \<not> is_check e \<Longrightarrow> e \<notin> set cs"
  by (auto simp add: list_all_iff)

lemma check_flow_simps:
  "check_flow Next" "check_flow (Goto_error s) = (s = - 1)" "check_flow (Stop (Crashed f))"
  "check_flow (Stop Hangs)" "\<not> check_flow (Stop (Returned s))"
  by (simp_all add: check_flow_def)

lemma check_flow_andthen: "check_flow (fst a) \<Longrightarrow> check_flow (fst b) \<Longrightarrow> check_flow (fst (andthen a b))"
  using andthen_cases [of a b] by auto

lemma check_flow_steps: "list_all (\<lambda>x. check_flow (fst x)) xs \<Longrightarrow> check_flow (fst (steps xs))"
  by (induction xs) (simp_all add: steps_Cons steps_Nil check_flow_andthen check_flow_simps)

lemma check_flow_print_step: "check_flow (fst (print_step r))"
  by (simp add: print_step_def check_flow_simps split: option.split)

lemma check_flow_check_step: "check_flow (fst (check_step st m p buflen samplesize stride count))"
  by (simp add: check_step_def check_flow_simps Let_def split: option.split check_result.split)

lemma check_flow_dump_step: "check_flow (fst (dump_step verbose quiet bytes i))"
  unfolding dump_step_def
  by (simp add: check_flow_steps check_flow_print_step check_flow_simps)

subsection \<open>The loop over the channels\<close>

lemma chan_offset_bounded:
  fixes offset bytes num_chan i :: nat
  assumes "offset \<le> bytes" and "i < num_chan"
  shows "offset + i * ((bytes - offset) div num_chan) \<le> bytes"
proof -
  have "i * ((bytes - offset) div num_chan) \<le> num_chan * ((bytes - offset) div num_chan)"
    using assms(2) by (intro mult_le_mono1) simp
  also have "\<dots> \<le> bytes - offset" by simp
  finally show ?thesis using assms(1) by simp
qed

lemma chan_loop_unfold:
  "i < num_chan \<Longrightarrow>
   chan_loop verbose quiet buf samplesize offset num_chan bytes i =
     andthen (dump_step verbose quiet bytes i)
       (andthen (check_step (Channel i) buf (offset + samplesize * i) (bytes - offset) samplesize
                   num_chan (word_of_nat (((offset + i * ((bytes - offset) div num_chan)) div 2) mod 65536)))
          (chan_loop verbose quiet buf samplesize offset num_chan bytes (Suc i)))"
  by (subst chan_loop.simps) (simp add: Let_def)

lemma chan_loop_end:
  "\<not> i < num_chan \<Longrightarrow> chan_loop verbose quiet buf samplesize offset num_chan bytes i = (Next, [])"
  by (subst chan_loop.simps) simp

lemma check_flow_chan_loop:
  "check_flow (fst (chan_loop verbose quiet buf samplesize offset num_chan bytes i))"
proof (induction "num_chan - i" arbitrary: i)
  case 0
  then show ?case by (simp add: chan_loop_end check_flow_simps)
next
  case (Suc x)
  then have lt: "i < num_chan" by simp
  have "check_flow (fst (chan_loop verbose quiet buf samplesize offset num_chan bytes (Suc i)))"
    using Suc.hyps(1) [of "Suc i"] Suc.hyps(2) by simp
  then show ?case
    unfolding chan_loop_unfold [OF lt]
    by (intro check_flow_andthen check_flow_dump_step check_flow_check_step)
qed

lemma chan_loop_events:
  "e \<in> set (snd (chan_loop verbose quiet buf samplesize offset num_chan bytes i)) \<Longrightarrow>
   \<exists>j. i \<le> j \<and> j < num_chan \<and>
     e = Check (Channel j) (Some (offset + samplesize * j)) (bytes - offset) samplesize num_chan
           (word_of_nat (((offset + j * ((bytes - offset) div num_chan)) div 2) mod 65536))
           (check_buf buf (Some (offset + samplesize * j)) (bytes - offset) samplesize num_chan
              (word_of_nat (((offset + j * ((bytes - offset) div num_chan)) div 2) mod 65536)))"
proof (induction "num_chan - i" arbitrary: i)
  case 0
  then show ?case by (simp add: chan_loop_end)
next
  case (Suc x)
  then have lt: "i < num_chan" by simp
  let ?chk = "check_step (Channel i) buf (offset + samplesize * i) (bytes - offset) samplesize
                   num_chan (word_of_nat (((offset + i * ((bytes - offset) div num_chan)) div 2) mod 65536))"
  let ?rest = "chan_loop verbose quiet buf samplesize offset num_chan bytes (Suc i)"
  have "e \<in> set (snd (dump_step verbose quiet bytes i)) \<union> (set (snd ?chk) \<union> set (snd ?rest))"
    using Suc.prems set_snd_andthen [of "dump_step verbose quiet bytes i" "andthen ?chk ?rest"]
      set_snd_andthen [of ?chk ?rest]
    unfolding chan_loop_unfold [OF lt] by blast
  then consider "e \<in> set (snd ?chk)" | "e \<in> set (snd ?rest)"
    by (auto simp add: snd_dump_step)
  then show ?case
  proof cases
    case 1
    then show ?thesis using lt by (auto simp add: snd_check_step)
  next
    case 2
    have "\<exists>j. Suc i \<le> j \<and> j < num_chan \<and>
     e = Check (Channel j) (Some (offset + samplesize * j)) (bytes - offset) samplesize num_chan
           (word_of_nat (((offset + j * ((bytes - offset) div num_chan)) div 2) mod 65536))
           (check_buf buf (Some (offset + samplesize * j)) (bytes - offset) samplesize num_chan
              (word_of_nat (((offset + j * ((bytes - offset) div num_chan)) div 2) mod 65536)))"
      using Suc.hyps(1) [of "Suc i"] Suc.hyps(2) 2 by simp
    then obtain j where j: "Suc i \<le> j" "j < num_chan"
      "e = Check (Channel j) (Some (offset + samplesize * j)) (bytes - offset) samplesize num_chan
           (word_of_nat (((offset + j * ((bytes - offset) div num_chan)) div 2) mod 65536))
           (check_buf buf (Some (offset + samplesize * j)) (bytes - offset) samplesize num_chan
              (word_of_nat (((offset + j * ((bytes - offset) div num_chan)) div 2) mod 65536)))"
      by blast
    show ?thesis
      by (rule exI [of _ j]) (use j in simp)
  qed
qed


subsection \<open>The checks between the transforms\<close>

lemma check_flow_mid_checks:
  "check_flow (fst (mid_checks verbose quiet buf1 samplesize offset num_chan bytes))"
  unfolding mid_checks_def
  by (intro check_flow_steps)
     (simp add: check_flow_steps check_flow_print_step check_flow_check_step check_flow_chan_loop
        check_flow_simps)

lemma mid_checks_events:
  assumes "e \<in> set (snd (mid_checks verbose quiet buf1 samplesize offset num_chan bytes))"
  shows "(\<exists>p l ss sd c r. e = Check Metadata p l ss sd c r)
       \<or> (\<exists>p l ss sd c r. e = Check NoInterleave p l ss sd c r)
       \<or> e \<in> set (snd (chan_loop verbose quiet buf1 samplesize offset num_chan bytes 0))"
proof -
  let ?M = "(if offset > 0
             then steps [print_step (print_buf verbose offset NUM_COLUMNS),
                         check_step Metadata buf1 0 offset samplesize 1 0]
             else (Next, []))"
  let ?N = "(if num_chan = 1
             then check_step NoInterleave buf1 0 bytes samplesize 1 0
             else (Next, []))"
  let ?L = "chan_loop verbose quiet buf1 samplesize offset num_chan bytes 0"
  have "e \<in> set (snd ?M) \<union> set (snd ?N) \<union> set (snd ?L)"
    using assms set_snd_steps [of "[?M, ?N, ?L]"] unfolding mid_checks_def by auto
  moreover have "set (snd ?M) \<subseteq> set (snd (check_step Metadata buf1 0 offset samplesize 1 0))"
    using set_snd_steps [of "[print_step (print_buf verbose offset NUM_COLUMNS),
                         check_step Metadata buf1 0 offset samplesize 1 0]"]
    by (auto simp add: snd_print_step)
  ultimately show ?thesis
    by (auto simp add: snd_check_step split: if_splits)
qed


lemma mid_checks_is_check:
  "e \<in> set (snd (mid_checks verbose quiet buf1 samplesize offset num_chan bytes)) \<Longrightarrow> is_check e"
  using mid_checks_events [of e verbose quiet buf1 samplesize offset num_chan bytes]
    chan_loop_events [of e verbose quiet buf1 samplesize offset num_chan bytes 0]
  by (auto simp add: is_check_def)

subsection \<open>The runs of test\<close>

text \<open>
  A test case that is rejected, one whose allocation fails, and the five ways a test
  case can go once it has its buffer.
\<close>

lemma test_invalid:
  assumes "calc_num_channels h rxlay \<noteq> calc_num_channels h txlay
         \<or> (calc_bytes_per_sample h format * num_samples) mod 2 ^ 64 < calc_metadata_bytes h format
         \<or> calc_num_channels h rxlay < 1"
  shows "test h verbose quiet hp rxlay txlay format num_samples = (Returned (- 1), [])"
  using assms by (auto simp add: test_def Let_def)

lemma test_alloc_fail:
  assumes "calc_num_channels h rxlay = calc_num_channels h txlay"
    and "calc_metadata_bytes h format \<le> (calc_bytes_per_sample h format * num_samples) mod 2 ^ 64"
    and "1 \<le> calc_num_channels h rxlay"
    and "create_buf hp ((calc_bytes_per_sample h format * num_samples) mod 2 ^ 64) = None"
  shows "test h verbose quiet hp rxlay txlay format num_samples =
     (Returned (- 1), [Malloc ((calc_bytes_per_sample h format * num_samples) mod 2 ^ 64) False])"
  using assms by (simp add: test_def Let_def del: One_nat_def)

lemma test_valid:
  assumes "calc_num_channels h rxlay = calc_num_channels h txlay"
    and "calc_metadata_bytes h format \<le> (calc_bytes_per_sample h format * num_samples) mod 2 ^ 64"
    and "1 \<le> calc_num_channels h rxlay"
    and "create_buf hp ((calc_bytes_per_sample h format * num_samples) mod 2 ^ 64) = Some buf0"
  shows "test h verbose quiet hp rxlay txlay format num_samples =
     at_error
       (andthen (Next, [Malloc ((calc_bytes_per_sample h format * num_samples) mod 2 ^ 64) True])
       (andthen (print_step (print_buf verbose ((calc_bytes_per_sample h format * num_samples) mod 2 ^ 64) NUM_COLUMNS))
       (andthen (transform_step Interleave (fst (interleave_buf h txlay format num_samples buf0)))
       (andthen (print_step (print_buf verbose ((calc_bytes_per_sample h format * num_samples) mod 2 ^ 64) NUM_COLUMNS))
       (andthen (mid_checks verbose quiet (snd (interleave_buf h txlay format num_samples buf0))
                   (calc_bytes_per_sample h format) (calc_metadata_bytes h format)
                   (calc_num_channels h rxlay) ((calc_bytes_per_sample h format * num_samples) mod 2 ^ 64))
       (andthen (transform_step Deinterleave
                   (fst (deinterleave_buf h rxlay format num_samples
                           (snd (interleave_buf h txlay format num_samples buf0)))))
       (andthen (print_step (print_buf verbose ((calc_bytes_per_sample h format * num_samples) mod 2 ^ 64) NUM_COLUMNS))
                (check_step Restored
                   (snd (deinterleave_buf h rxlay format num_samples
                           (snd (interleave_buf h txlay format num_samples buf0))))
                   0 ((calc_bytes_per_sample h format * num_samples) mod 2 ^ 64)
                   (calc_bytes_per_sample h format) 1 0))))))))"
  using assms
  by (simp add: test_def Let_def split_beta mid_checks_def steps_Cons steps_Nil andthen_assoc andthen_unit
        del: One_nat_def)

lemma test_shapes:
  fixes h verbose quiet hp rxlay txlay format num_samples buf0
  defines "samplesize \<equiv> calc_bytes_per_sample h format"
    and "offset \<equiv> calc_metadata_bytes h format"
    and "num_chan \<equiv> calc_num_channels h rxlay"
    and "bytes \<equiv> (calc_bytes_per_sample h format * num_samples) mod 2 ^ 64"
    and "buf1 \<equiv> snd (interleave_buf h txlay format num_samples buf0)"
    and "A \<equiv> mid_checks verbose quiet (snd (interleave_buf h txlay format num_samples buf0))
                (calc_bytes_per_sample h format) (calc_metadata_bytes h format)
                (calc_num_channels h rxlay) ((calc_bytes_per_sample h format * num_samples) mod 2 ^ 64)"
    and "C \<equiv> check_step Restored
                   (snd (deinterleave_buf h rxlay format num_samples
                           (snd (interleave_buf h txlay format num_samples buf0))))
                   0 ((calc_bytes_per_sample h format * num_samples) mod 2 ^ 64)
                   (calc_bytes_per_sample h format) 1 0"
    and "run \<equiv> test h verbose quiet hp rxlay txlay format num_samples"
  assumes valid: "num_chan = calc_num_channels h txlay" "offset \<le> bytes" "1 \<le> num_chan"
    and created: "create_buf hp bytes = Some buf0"
  obtains
    (crash) f where "run = (Crashed f, [Malloc bytes True])"
  | (forward) s where "s \<noteq> 0" "run = (Returned s, [Malloc bytes True, Interleave s, Free])"
  | (checks) "fst A \<noteq> Next" "run = at_error (fst A, [Malloc bytes True, Interleave 0] @ snd A)"
  | (inverse) s where "fst A = Next" "s \<noteq> 0"
      "run = (Returned s, [Malloc bytes True, Interleave 0] @ snd A @ [Deinterleave s, Free])"
  | (restored) "fst A = Next"
      "run = at_error (fst C, [Malloc bytes True, Interleave 0] @ snd A @ [Deinterleave 0] @ snd C)"
proof -
  let ?P = "print_step (print_buf verbose bytes NUM_COLUMNS)"
  let ?s1 = "fst (interleave_buf h txlay format num_samples buf0)"
  let ?s2 = "fst (deinterleave_buf h rxlay format num_samples buf1)"
  have run: "run = at_error (andthen (Next, [Malloc bytes True]) (andthen ?P
      (andthen (transform_step Interleave ?s1) (andthen ?P (andthen A
      (andthen (transform_step Deinterleave ?s2) (andthen ?P C)))))))"
    unfolding run_def A_def C_def buf1_def bytes_def
    using valid created
    unfolding samplesize_def offset_def num_chan_def bytes_def
    by (rule test_valid)
  show thesis
  proof (cases rule: print_step_cases [of "print_buf verbose bytes NUM_COLUMNS"])
    case (2 f)
    then have "run = (Crashed f, [Malloc bytes True])"
      using run by (simp add: andthen_Next andthen_Stop at_error_Stop)
    then show ?thesis by (rule crash)
  next
    case 1
    note P = 1
    show ?thesis
    proof (cases "?s1 = 0")
      case False
      then show ?thesis
        using forward [of ?s1] run P
        by (simp add: andthen_Next andthen_Goto at_error_Goto transform_step_fail)
    next
      case True
      note s1 = True
      have run1: "run = at_error (andthen (Next, [Malloc bytes True, Interleave 0])
          (andthen A (andthen (transform_step Deinterleave ?s2) C)))"
        using run P s1 by (simp add: andthen_Next transform_step_ok)
      show ?thesis
      proof (cases "fst A = Next")
        case False
        then have "andthen A (andthen (transform_step Deinterleave ?s2) C) = A"
          using andthen_cases [of A] by auto
        then show ?thesis using checks False run1 by (simp add: andthen_Next)
      next
        case True
        then have A: "andthen A X = (fst X, snd A @ snd X)" for X
          using andthen_cases [of A X] by auto
        show ?thesis
        proof (cases "?s2 = 0")
          case False
          then show ?thesis
            using inverse [of ?s2] True run1
            by (simp add: andthen_Next A andthen_Goto at_error_Goto transform_step_fail)
        next
          case s2: True
          show ?thesis
            using restored True run1 s2
            by (simp add: andthen_Next A at_error_Goto transform_step_ok)
        qed
      qed
    qed
  qed
qed

lemma test_cases:
  fixes h verbose quiet hp rxlay txlay format num_samples
  defines "bytes \<equiv> (calc_bytes_per_sample h format * num_samples) mod 2 ^ 64"
    and "run \<equiv> test h verbose quiet hp rxlay txlay format num_samples"
  obtains
    (invalid) "run = (Returned (- 1), [])"
  | (nomem) "run = (Returned (- 1), [Malloc bytes False])"
  | (crash) f where "run = (Crashed f, [Malloc bytes True])"
  | (forward) s where "s \<noteq> 0" "run = (Returned s, [Malloc bytes True, Interleave s, Free])"
  | (checks) fl cs where "fl \<noteq> Next" "check_flow fl" "list_all is_check cs"
      "run = at_error (fl, [Malloc bytes True, Interleave 0] @ cs)"
  | (inverse) s cs where "s \<noteq> 0" "list_all is_check cs"
      "run = (Returned s, [Malloc bytes True, Interleave 0] @ cs @ [Deinterleave s, Free])"
  | (restored) fl cs c where "check_flow fl" "list_all is_check cs" "is_check c"
      "run = at_error (fl, [Malloc bytes True, Interleave 0] @ cs @ [Deinterleave 0, c])"
proof (cases "calc_num_channels h rxlay \<noteq> calc_num_channels h txlay
         \<or> (calc_bytes_per_sample h format * num_samples) mod 2 ^ 64 < calc_metadata_bytes h format
         \<or> calc_num_channels h rxlay < 1")
  case True
  then show ?thesis using invalid test_invalid unfolding run_def by blast
next
  case False
  then have v: "calc_num_channels h rxlay = calc_num_channels h txlay"
    "calc_metadata_bytes h format \<le> bytes" "1 \<le> calc_num_channels h rxlay"
    unfolding bytes_def by auto
  show ?thesis
  proof (cases "create_buf hp bytes")
    case None
    then show ?thesis using nomem test_alloc_fail v unfolding run_def bytes_def by blast
  next
    case (Some buf0)
    let ?A = "mid_checks verbose quiet (snd (interleave_buf h txlay format num_samples buf0))
                (calc_bytes_per_sample h format) (calc_metadata_bytes h format)
                (calc_num_channels h rxlay) bytes"
    have cs: "list_all is_check (snd ?A)"
      using mid_checks_is_check by (auto simp add: list_all_iff)
    have fl: "check_flow (fst ?A)" by (rule check_flow_mid_checks)
    show ?thesis
      using v(1,2,3) Some unfolding bytes_def
    proof (cases rule: test_shapes [where verbose = verbose and quiet = quiet])
      case (crash f)
      then show ?thesis using that(3) unfolding run_def bytes_def by blast
    next
      case (forward s)
      then show ?thesis using that(4) unfolding run_def bytes_def by blast
    next
      case checks
      then show ?thesis using that(5) [OF _ fl cs] unfolding run_def bytes_def by blast
    next
      case (inverse s)
      then show ?thesis using that(6) [OF _ cs] unfolding run_def bytes_def by blast
    next
      case restored
      let ?buf2 = "snd (deinterleave_buf h rxlay format num_samples
                           (snd (interleave_buf h txlay format num_samples buf0)))"
      let ?C = "check_step Restored ?buf2 0 bytes (calc_bytes_per_sample h format) 1 0"
      let ?c = "Check Restored (Some 0) bytes (calc_bytes_per_sample h format) 1 0
                  (check_buf ?buf2 (Some 0) bytes (calc_bytes_per_sample h format) 1 0)"
      have "run = at_error (fst ?C, [Malloc bytes True, Interleave 0] @ snd ?A @ [Deinterleave 0, ?c])"
        using restored(2) unfolding run_def bytes_def by (simp add: snd_check_step)
      then show ?thesis
        by (rule that(7) [OF check_flow_check_step cs is_check_simps(5)])
    qed
  qed
qed



subsection \<open>Runs on concrete inputs\<close>

lemma stub_simps:
  "calc_bytes_per_sample (stub_interleaver f i) format = 4"
  "calc_metadata_bytes (stub_interleaver f i) BLADERF_FORMAT_SC16_Q11 = 0"
  "calc_metadata_bytes (stub_interleaver f i) BLADERF_FORMAT_SC16_Q11_META = 16"
  "calc_num_channels (stub_interleaver f i) BLADERF_RX_X1 = 1"
  "calc_num_channels (stub_interleaver f i) BLADERF_TX_X1 = 1"
  "calc_num_channels (stub_interleaver f i) BLADERF_RX_X2 = 2"
  "calc_num_channels (stub_interleaver f i) BLADERF_TX_X2 = 2"
  "interleave_buf (stub_interleaver f i) layout format n m = (f layout, m)"
  "deinterleave_buf (stub_interleaver f i) layout format n m = (i, m)"
  by (simp_all add: stub_interleaver_def)

lemmas run_simps =
  test_def Let_def stub_simps print_buf_def print_step_def transform_step_def
  steps_Cons steps_Nil andthen_def at_error_def chan_loop_unfold chan_loop_end dump_step_def
  check_step_def check_buf_def check_loop_step check_loop_done check_loop_fault word_at_def
  read_u32_def CELL_WIDTH_def NUM_COLUMNS_def

lemma run_one_channel:
  "test (stub_interleaver (\<lambda>layout. 0) 0) False False (Some (\<lambda>k. 0))
      BLADERF_RX_X1 BLADERF_TX_X1 BLADERF_FORMAT_SC16_Q11 1 =
   (Returned 0,
      [Malloc 4 True, Interleave 0,
       Check NoInterleave (Some 0) 4 4 1 0
        (Some (Checked True [\<lparr>c_addr = 0, c_actual = 65536, c_expect = 65536\<rparr>])),
       Check (Channel 0) (Some 0) 4 4 1 0
        (Some (Checked True [\<lparr>c_addr = 0, c_actual = 65536, c_expect = 65536\<rparr>])),
       Deinterleave 0,
       Check Restored (Some 0) 4 4 1 0
        (Some (Checked True [\<lparr>c_addr = 0, c_actual = 65536, c_expect = 65536\<rparr>])),
       Free])"
  by (simp add: run_simps create_buf_4)

lemma run_inverse_fails:
  "test (stub_interleaver (\<lambda>layout. 0) (- 7)) False False (Some (\<lambda>k. 0))
      BLADERF_RX_X1 BLADERF_TX_X1 BLADERF_FORMAT_SC16_Q11 1 =
   (Returned (- 7),
      [Malloc 4 True, Interleave 0,
       Check NoInterleave (Some 0) 4 4 1 0
        (Some (Checked True [\<lparr>c_addr = 0, c_actual = 65536, c_expect = 65536\<rparr>])),
       Check (Channel 0) (Some 0) 4 4 1 0
        (Some (Checked True [\<lparr>c_addr = 0, c_actual = 65536, c_expect = 65536\<rparr>])),
       Deinterleave (- 7),
       Free])"
  by (simp add: run_simps create_buf_4)

lemma run_two_channels:
  "test (stub_interleaver (\<lambda>layout. 0) 0) False False (Some (\<lambda>k. 0))
      BLADERF_RX_X2 BLADERF_TX_X2 BLADERF_FORMAT_SC16_Q11 2 =
   (Returned 0,
      [Malloc 8 True, Interleave 0,
       Check (Channel 0) (Some 0) 8 4 2 0
        (Some (Checked True [\<lparr>c_addr = 0, c_actual = 65536, c_expect = 65536\<rparr>])),
       Check (Channel 1) (Some 4) 8 4 2 2
        (Some (Checked True [\<lparr>c_addr = 4, c_actual = 196610, c_expect = 196610\<rparr>])),
       Deinterleave 0,
       Check Restored (Some 0) 8 4 1 0
        (Some (Checked True
            [\<lparr>c_addr = 0, c_actual = 65536, c_expect = 65536\<rparr>,
             \<lparr>c_addr = 4, c_actual = 196610, c_expect = 196610\<rparr>])),
       Free])"
  by (simp add: run_simps create_buf_8)



section \<open>The claims\<close>

subsection \<open>C1: what check_buf inspects and what it expects\<close>

text \<open>
  Claim C1, amended. Take a non-null buffer at offset \<open>p\<close> of the block \<open>m\<close>, a sample
  width \<open>samplesize \<ge> 1\<close>, a stride \<open>d \<ge> 1\<close> and a start count \<open>c\<close>, such that every 32-bit
  word of index \<open>k * d < buflen div samplesize\<close>, counted in units of four bytes from the
  buffer pointer, lies inside the block. Then \<open>check_buf\<close> returns, and it has inspected
  exactly the words of index \<open>0, d, 2d, ...\<close> below \<open>buflen div samplesize\<close>, in this order;
  the \<open>k\<close>-th of them is compared with the word whose low 16 bits are
  \<open>(c + 2k) mod 65536\<close> and whose high 16 bits are \<open>(c + 2k + 1) mod 65536\<close>.
  The sample width only sets the bound: the sample of index \<open>i\<close> is always the four bytes
  at \<open>4 * i\<close>. The two remaining hypotheses say that the stride is a \<open>size_t\<close> and that
  the block fits the address space.
\<close>

theorem check_buf_scan:
  assumes "1 \<le> samplesize" "1 \<le> d" "d < 2 ^ 64" "length m \<le> 2 ^ 64"
    and "\<forall>k. k * d < buflen div samplesize \<longrightarrow> p + 4 * (k * d) + 4 \<le> length m"
  shows "\<exists>n. (\<forall>k. (k < n) = (k * d < buflen div samplesize)) \<and>
     (\<exists>ok. check_buf m (Some p) buflen samplesize d c =
        Some (Checked ok
          (map (\<lambda>k. \<lparr>c_addr = p + 4 * (k * d),
                      c_actual = word_at m (p + 4 * (k * d)),
                      c_expect = word_of_nat ((unat c + 2 * k) mod 65536
                                   + 65536 * ((unat c + 2 * k + 1) mod 65536))\<rparr>)
             [0..<n])))"
proof -
  let ?n = "(buflen div samplesize + d - 1) div d"
  have "\<forall>k. (k < ?n) = (k * d < buflen div samplesize)"
    using ceil_div_iff [OF assms(2)] by blast
  moreover have "scan_entry m p d c = (\<lambda>k. \<lparr>c_addr = p + 4 * (k * d),
                      c_actual = word_at m (p + 4 * (k * d)),
                      c_expect = word_of_nat ((unat c + 2 * k) mod 65536
                                   + 65536 * ((unat c + 2 * k + 1) mod 65536))\<rparr>)"
    unfolding scan_entry_def expect_halves ..
  ultimately show ?thesis
    using check_buf_total [OF assms, of c] by (intro exI [of _ ?n] conjI) auto
qed

text \<open>
  C1 at a stride of 2 and a count that wraps: the words of index 0 and 2 are inspected,
  the first against the counts 65535 and 0, the second against 1 and 2.
\<close>

theorem check_buf_scan_witness:
  "\<exists>ok. check_buf [255, 255, 0, 0, 9, 9, 9, 9, 1, 0, 2, 0] (Some 0) 12 4 2 65535 =
     Some (Checked ok
        [\<lparr>c_addr = 0, c_actual = 65535, c_expect = 65535\<rparr>,
         \<lparr>c_addr = 8, c_actual = 131073, c_expect = 131073\<rparr>])"
proof -
  let ?m = "[255, 255, 0, 0, 9, 9, 9, 9, 1, 0, 2, 0] :: mem"
  have inb: "\<forall>k. k * 2 < 12 div 4 \<longrightarrow> 0 + 4 * (k * 2) + 4 \<le> length ?m"
    by auto
  from check_buf_scan [of 4 2 ?m 12 0 65535, OF _ _ _ _ inb]
  obtain n ok where n: "\<forall>k. (k < n) = (k * 2 < 12 div 4)"
    and run: "check_buf ?m (Some 0) 12 4 2 65535 =
        Some (Checked ok
          (map (\<lambda>k. \<lparr>c_addr = 0 + 4 * (k * 2),
                      c_actual = word_at ?m (0 + 4 * (k * 2)),
                      c_expect = word_of_nat ((unat (65535 :: 16 word) + 2 * k) mod 65536
                                   + 65536 * ((unat (65535 :: 16 word) + 2 * k + 1) mod 65536))\<rparr>)
             [0..<n]))"
    by auto
  have "n = 2" using n by (rule count_is_2) simp_all
  then show ?thesis
    using run by (simp add: upt_2 word_at_def read_u32_def)
qed

text \<open>
  C1 as it is stated, for every sample width, fails. With a sample width of 2, a buffer of
  4 bytes has \<open>4 div 2 = 2\<close> samples to inspect, and the second, the 32-bit word of index
  1, is outside the buffer. With a sample width of 0, \<open>buflen / samplesize\<close> traps.
\<close>

theorem check_buf_scan_counterexample:
  "check_buf [0, 0, 1, 0] (Some 0) 4 2 1 0 = Some (Faulted OutOfBounds)
   \<and> check_buf [0, 0, 1, 0] (Some 0) 4 0 1 0 = Some (Faulted DivByZero)"
  by (simp add: check_buf_def check_loop_step check_loop_fault check_loop_done)

subsection \<open>C2: the parameters of the check of each channel\<close>



subsection \<open>C3: the buffer create_buf returns\<close>

text \<open>
  Claim C3. For every even \<open>buflen\<close>, \<open>create_buf buflen\<close> returns no buffer when the
  allocation fails, and otherwise a buffer of \<open>buflen\<close> bytes in which the 16-bit word of
  index \<open>i\<close> is \<open>i mod 65536\<close>, for every \<open>i < buflen div 2\<close>. The function has no other
  effect: its result depends on the answer of the allocator and on \<open>buflen\<close> only, and is
  the returned buffer only.
\<close>

theorem create_buf_pattern:
  assumes "even buflen"
  shows "(hp = None \<and> create_buf hp buflen = None) \<or>
         (\<exists>g m. hp = Some g \<and> create_buf hp buflen = Some m \<and> length m = buflen \<and>
            (\<forall>i<buflen div 2. read_u16 m (2 * i) = Some (word_of_nat (i mod 65536))))"
proof (cases hp)
  case None
  then show ?thesis by (simp add: create_buf_def malloc_def)
next
  case (Some g)
  then obtain m where m: "create_buf hp buflen = Some m"
    by (simp add: create_buf_def malloc_def)
  then show ?thesis using Some create_buf_Some [of g buflen m] by auto
qed

text \<open>
  C3 for a buffer of four bytes, allocated with every byte equal to 170.
\<close>

theorem create_buf_pattern_witness:
  "even (4 :: nat)
   \<and> (\<exists>m. create_buf (Some (\<lambda>k. 170)) 4 = Some m \<and> length m = 4
          \<and> read_u16 m 0 = Some 0 \<and> read_u16 m 2 = Some 1)"
proof -
  have e: "even (4 :: nat)" by simp
  from create_buf_pattern [OF e, of "Some (\<lambda>k. 170)"]
  obtain m where m: "create_buf (Some (\<lambda>k. 170)) 4 = Some m" "length m = 4"
    "\<forall>i<4 div 2. read_u16 m (2 * i) = Some (word_of_nat (i mod 65536))"
    by auto
  have "read_u16 m (2 * 0) = Some (word_of_nat (0 mod 65536))"
    "read_u16 m (2 * 1) = Some (word_of_nat (1 mod 65536))"
    using m(3) [rule_format, of 0] m(3) [rule_format, of 1] by simp_all
  then show ?thesis using e m(1,2) by simp
qed

subsection \<open>C4: a mismatch does not stop the scan\<close>

text \<open>
  Claim C4, amended. Under the conditions of C1 (a non-null buffer, \<open>samplesize \<ge> 1\<close>,
  stride \<open>d \<ge> 1\<close>, every inspected word inside the block), \<open>check_buf\<close> returns, its log
  has one entry for each of the \<open>n\<close> samples of index \<open>0, d, 2d, ...\<close> below
  \<open>buflen div samplesize\<close>, whether or not earlier samples matched, so every mismatch is in
  it; and the result is success if and only if no entry of the log is a mismatch.
\<close>

theorem check_buf_scans_past_mismatches:
  assumes "1 \<le> samplesize" "1 \<le> d" "d < 2 ^ 64" "length m \<le> 2 ^ 64"
    and "\<forall>k. k * d < buflen div samplesize \<longrightarrow> p + 4 * (k * d) + 4 \<le> length m"
  shows "\<exists>n log. (\<forall>k. (k < n) = (k * d < buflen div samplesize)) \<and>
     log = map (scan_entry m p d c) [0..<n] \<and>
     check_buf m (Some p) buflen samplesize d c =
        Some (Checked (filter (\<lambda>e. c_actual e \<noteq> c_expect e) log = []) log)"
proof -
  let ?n = "(buflen div samplesize + d - 1) div d"
  have "\<forall>k. (k < ?n) = (k * d < buflen div samplesize)"
    using ceil_div_iff [OF assms(2)] by blast
  moreover have "list_all cmp_ok log = (filter (\<lambda>e. c_actual e \<noteq> c_expect e) log = [])" for log
    by (induction log) (simp_all add: cmp_ok_def)
  ultimately show ?thesis
    using check_buf_total [OF assms, of c]
    by (intro exI [of _ ?n] exI [of _ "map (scan_entry m p d c) [0..<?n]"] conjI) auto
qed

text \<open>
  C4 on a buffer whose first sample is wrong and whose second is right: both are in the
  log and the result is failure.
\<close>

theorem check_buf_scans_past_mismatches_witness:
  "check_buf [5, 0, 1, 0, 2, 0, 3, 0] (Some 0) 8 4 1 0 =
     Some (Checked False
        [\<lparr>c_addr = 0, c_actual = 65541, c_expect = 65536\<rparr>,
         \<lparr>c_addr = 4, c_actual = 196610, c_expect = 196610\<rparr>])"
proof -
  let ?m = "[5, 0, 1, 0, 2, 0, 3, 0] :: mem"
  have inb: "\<forall>k. k * 1 < 8 div 4 \<longrightarrow> 0 + 4 * (k * 1) + 4 \<le> length ?m"
    by auto
  from check_buf_scans_past_mismatches [of 4 1 ?m 8 0 0, OF _ _ _ _ inb]
  obtain n log where n: "\<forall>k. (k < n) = (k * 1 < 8 div 4)"
    and log: "log = map (scan_entry ?m 0 1 0) [0..<n]"
    and run: "check_buf ?m (Some 0) 8 4 1 0 =
        Some (Checked (filter (\<lambda>e. c_actual e \<noteq> c_expect e) log = []) log)"
    by auto
  have "n = 2" using n by (rule count_is_2) simp_all
  then have "log = [\<lparr>c_addr = 0, c_actual = 65541, c_expect = 65536\<rparr>,
         \<lparr>c_addr = 4, c_actual = 196610, c_expect = 196610\<rparr>]"
    using log by (simp add: upt_2 scan_entry_def word_at_def read_u32_def)
  then show ?thesis using run by simp
qed

text \<open>
  C4 as it is stated, for every choice of the parameters, fails. The buffer of eight bytes
  below holds the counting pattern: scanned in samples of four bytes it has no mismatch.
  Scanned with a sample width of 2 it has \<open>8 div 2 = 4\<close> samples to inspect: the first
  two match and the third is outside the buffer, so no mismatch has occurred and yet no
  success is returned. With a sample width of 0 the division traps before any sample is
  compared. With a stride of 0 the loop never ends and \<open>check_buf\<close> returns nothing.
\<close>

theorem check_buf_verdict_counterexample:
  "check_buf [0, 0, 1, 0, 2, 0, 3, 0] (Some 0) 8 4 1 0 =
     Some (Checked True
        [\<lparr>c_addr = 0, c_actual = 65536, c_expect = 65536\<rparr>,
         \<lparr>c_addr = 4, c_actual = 196610, c_expect = 196610\<rparr>])
   \<and> check_buf [0, 0, 1, 0, 2, 0, 3, 0] (Some 0) 8 2 1 0 = Some (Faulted OutOfBounds)
   \<and> check_buf [0, 0, 1, 0, 2, 0, 3, 0] (Some 0) 8 0 1 0 = Some (Faulted DivByZero)
   \<and> check_buf [0, 0, 1, 0, 2, 0, 3, 0] (Some 0) 8 4 0 0 = None"
proof -
  let ?m = "[0, 0, 1, 0, 2, 0, 3, 0] :: mem"
  have "check_buf ?m (Some 0) 8 4 1 0 =
     Some (Checked True
        [\<lparr>c_addr = 0, c_actual = 65536, c_expect = 65536\<rparr>,
         \<lparr>c_addr = 4, c_actual = 196610, c_expect = 196610\<rparr>])"
    by (simp add: check_buf_def check_loop_step check_loop_done word_at_def read_u32_def)
  moreover have "check_buf ?m (Some 0) 8 2 1 0 = Some (Faulted OutOfBounds)"
    by (simp add: check_buf_def check_loop_step check_loop_fault)
  moreover have "check_buf ?m (Some 0) 8 0 1 0 = Some (Faulted DivByZero)"
    by (simp add: check_buf_def)
  moreover have "check_buf ?m (Some 0) 8 4 0 0 = None"
    by (simp add: check_buf_def check_loop_stride0)
  ultimately show ?thesis by simp
qed

subsection \<open>C5: one corrupted word\<close>

text \<open>
  Claim C5, amended. Take a buffer of \<open>create_buf buflen\<close> and overwrite its 16-bit word
  of index \<open>j\<close> with another value \<open>v\<close>, where the word belongs to one of the
  \<open>buflen div 4\<close> whole 32-bit samples (\<open>j < 2 * (buflen div 4)\<close>). The scan with stride 1
  and start count 0 over the whole buffer then returns failure, and exactly one entry of
  its log is a mismatch: the one of sample \<open>j div 2\<close>, at byte \<open>4 * (j div 2)\<close>, with the
  expected word made of the counts \<open>2 * (j div 2)\<close> and \<open>2 * (j div 2) + 1\<close>, and with the
  actual word made of \<open>v\<close> and the untouched other half.
\<close>

theorem single_corruption_detected:
  assumes size: "buflen < 2 ^ 64"
    and m: "create_buf hp buflen = Some m"
    and j: "j < 2 * (buflen div 4)"
    and v: "v \<noteq> word_of_nat (j mod 65536)"
  shows "\<exists>log. check_buf (write_u16 m (2 * j) v) (Some 0) buflen 4 1 0 = Some (Checked False log)
     \<and> filter (\<lambda>e. c_actual e \<noteq> c_expect e) log =
        [\<lparr>c_addr = 4 * (j div 2),
          c_actual = word_at (write_u16 m (2 * j) v) (4 * (j div 2)),
          c_expect = word_of_nat ((2 * (j div 2)) mod 65536
                       + 65536 * ((2 * (j div 2) + 1) mod 65536))\<rparr>]
     \<and> word_at (write_u16 m (2 * j) v) (4 * (j div 2)) =
         (if even j then ucast v + push_bit 16 (ucast (word_of_nat (j + 1) :: 16 word))
          else ucast (word_of_nat (j - 1) :: 16 word) + push_bit 16 (ucast v))"
proof -
  obtain g where hp: "hp = Some g"
    using m by (cases hp) (simp_all add: create_buf_def malloc_def)
  note m' = m [unfolded hp]
  let ?m = "write_u16 m (2 * j) v"
  let ?n = "buflen div 4"
  let ?f = "scan_entry ?m 0 1 0"
  let ?log = "map ?f [0..<?n]"
  have v': "v \<noteq> word_of_nat j" using v by (simp add: word16_of_nat_mod)
  have len: "length ?m = buflen"
    using create_buf_Some [OF m'] by (simp add: length_write_u16)
  have jn: "j div 2 < ?n" using j by auto
  have run: "check_buf ?m (Some 0) buflen 4 1 0 = Some (Checked (list_all cmp_ok ?log) ?log)"
  proof -
    have inb: "\<forall>k. k * 1 < buflen div 4 \<longrightarrow> 0 + 4 * (k * 1) + 4 \<le> length ?m"
      unfolding len by auto
    show ?thesis
      using check_buf_total [of 4 1 ?m buflen 0 0, OF _ _ _ _ inb] len size by simp
  qed
  have ok: "cmp_ok (?f k) = (k \<noteq> j div 2)" if "k < ?n" for k
    using corrupted_cmp_ok [OF m' that j v'] .
  have "\<not> list_all cmp_ok ?log"
    using jn ok [OF jn] by (auto simp add: list_all_iff)
  moreover have "filter (\<lambda>e. c_actual e \<noteq> c_expect e) ?log = [?f (j div 2)]"
  proof -
    have "filter (\<lambda>e. c_actual e \<noteq> c_expect e) ?log = map ?f (filter (\<lambda>k. \<not> cmp_ok (?f k)) [0..<?n])"
      by (simp add: filter_map comp_def cmp_ok_def)
    also have "filter (\<lambda>k. \<not> cmp_ok (?f k)) [0..<?n] = filter (\<lambda>k. k = j div 2) [0..<?n]"
      by (rule filter_cong) (use ok in auto)
    also have "\<dots> = [j div 2]" using jn by (rule filter_eq_upt)
    finally show ?thesis by simp
  qed
  moreover have "?f (j div 2) = \<lparr>c_addr = 4 * (j div 2),
          c_actual = word_at ?m (4 * (j div 2)),
          c_expect = word_of_nat ((2 * (j div 2)) mod 65536
                       + 65536 * ((2 * (j div 2) + 1) mod 65536))\<rparr>"
    using expect_halves [of 0 "j div 2"] by (simp add: scan_entry_def)
  moreover have "word_at ?m (4 * (j div 2)) =
         (if even j then ucast v + push_bit 16 (ucast (word_of_nat (j + 1) :: 16 word))
          else ucast (word_of_nat (j - 1) :: 16 word) + push_bit 16 (ucast v))"
  proof (cases "even j")
    case True
    then have "2 * (j div 2) = j" by simp
    then show ?thesis using corrupted_word_at [OF m' jn j, of v] True by simp
  next
    case False
    then have "2 * (j div 2) + 1 = j" "2 * (j div 2) = j - 1" "2 * (j div 2) \<noteq> j"
      by presburger+
    then show ?thesis using corrupted_word_at [OF m' jn j, of v] False by simp
  qed
  ultimately show ?thesis using run by simp
qed

text \<open>
  C5 for a buffer of eight bytes whose word of index 1 is overwritten with 9.
\<close>

theorem single_corruption_detected_witness:
  "\<exists>log. check_buf [0, 0, 9, 0, 2, 0, 3, 0] (Some 0) 8 4 1 0 = Some (Checked False log)
     \<and> filter (\<lambda>e. c_actual e \<noteq> c_expect e) log =
        [\<lparr>c_addr = 0, c_actual = 589824, c_expect = 65536\<rparr>]"
proof -
  have w: "write_u16 [0, 0, 1, 0, 2, 0, 3, 0] (2 * 1) 9 = [0, 0, 9, 0, 2, 0, 3, 0]"
    by (simp add: write_u16_def)
  from single_corruption_detected [of 8 "Some (\<lambda>k. 0)" "[0, 0, 1, 0, 2, 0, 3, 0]" 1 9,
      OF _ create_buf_8]
  show ?thesis
    unfolding w by (simp add: word_at_def read_u32_def)
qed

text \<open>
  C5 as it is stated, for every buffer of \<open>create_buf\<close>, fails. A buffer of six bytes has
  three 16-bit words and \<open>6 div 4 = 1\<close> sample; its last word belongs to no sample, and
  overwriting it with 7 is not seen: the scan reports no mismatch and returns success.
\<close>

theorem single_corruption_counterexample:
  "create_buf (Some (\<lambda>k. 0)) 6 = Some [0, 0, 1, 0, 2, 0]
   \<and> write_u16 [0, 0, 1, 0, 2, 0] 4 7 = [0, 0, 1, 0, 7, 0]
   \<and> check_buf [0, 0, 1, 0, 7, 0] (Some 0) 6 4 1 0 =
       Some (Checked True [\<lparr>c_addr = 0, c_actual = 65536, c_expect = 65536\<rparr>])"
  by (simp add: create_buf_6 write_u16_def check_buf_def check_loop_step check_loop_done
        word_at_def read_u32_def)

subsection \<open>C6: test cases rejected before the buffer is generated\<close>

text \<open>
  Claim C6. If the channel counts of the receive and the transmit layout differ, or the
  total byte count is less than the metadata byte count, or the channel count is less
  than 1, then \<open>test\<close> returns -1 and has left no event: no allocation was attempted.
\<close>

theorem test_rejects_invalid_case:
  assumes "calc_num_channels h rxlay \<noteq> calc_num_channels h txlay
         \<or> (calc_bytes_per_sample h format * num_samples) mod 2 ^ 64 < calc_metadata_bytes h format
         \<or> calc_num_channels h rxlay < 1"
  shows "test h verbose quiet hp rxlay txlay format num_samples = (Returned (- 1), [])"
  using assms by (auto simp add: test_def Let_def)

text \<open>
  C6 for three samples in the metadata format: 12 bytes, less than the 16 bytes of
  metadata.
\<close>

theorem test_rejects_invalid_case_witness:
  "(calc_bytes_per_sample (stub_interleaver (\<lambda>layout. 0) 0) BLADERF_FORMAT_SC16_Q11_META * 3) mod 2 ^ 64
      < calc_metadata_bytes (stub_interleaver (\<lambda>layout. 0) 0) BLADERF_FORMAT_SC16_Q11_META
   \<and> test (stub_interleaver (\<lambda>layout. 0) 0) False False (Some (\<lambda>k. 0))
        BLADERF_RX_X1 BLADERF_TX_X1 BLADERF_FORMAT_SC16_Q11_META 3 = (Returned (- 1), [])"
proof -
  have lt: "(calc_bytes_per_sample (stub_interleaver (\<lambda>layout. 0) 0) BLADERF_FORMAT_SC16_Q11_META * 3) mod 2 ^ 64
      < calc_metadata_bytes (stub_interleaver (\<lambda>layout. 0) 0) BLADERF_FORMAT_SC16_Q11_META"
    by (simp add: stub_simps)
  then show ?thesis
    using test_rejects_invalid_case [of "stub_interleaver (\<lambda>layout. 0) 0" BLADERF_RX_X1 BLADERF_TX_X1
        BLADERF_FORMAT_SC16_Q11_META 3 False False "Some (\<lambda>k. 0)"]
    by blast
qed

subsection \<open>C7: a failing transform ends the test case\<close>

text \<open>
  Claim C7. Whenever the call of the interleaver or of the deinterleaver returns a status
  \<open>s\<close> other than 0, \<open>test\<close> returns \<open>s\<close>, and that call and the release of the buffer are
  the last two events of the run: every step that would follow the call is skipped.
\<close>

theorem transform_failure_aborts:
  assumes run: "test h verbose quiet hp rxlay txlay format num_samples = (out, tr)"
    and s: "s \<noteq> 0"
  shows "(Interleave s \<in> set tr \<longrightarrow>
            out = Returned s \<and> (\<exists>pre. tr = pre @ [Interleave s, Free]))
       \<and> (Deinterleave s \<in> set tr \<longrightarrow>
            out = Returned s \<and> (\<exists>pre. tr = pre @ [Deinterleave s, Free]))"
proof (cases rule: test_cases [of h verbose quiet hp rxlay txlay format num_samples])
  case invalid
  then show ?thesis using run by simp
next
  case nomem
  then show ?thesis using run by simp
next
  case (crash f)
  then show ?thesis using run by simp
next
  case (forward s')
  then show ?thesis using run by auto
next
  case (checks fl cs)
  have "set tr \<subseteq> insert Free (set ([Malloc ((calc_bytes_per_sample h format * num_samples) mod 2 ^ 64) True, Interleave 0] @ cs))"
    using at_error_events [of fl] checks(4) run by (metis snd_conv)
  then show ?thesis
    using s not_is_check_in [OF checks(3)] is_check_simps by auto
next
  case (inverse s' cs)
  then show ?thesis
    using run s not_is_check_in [OF inverse(2)] is_check_simps by auto
next
  case (restored fl cs c)
  have "set tr \<subseteq> insert Free (set ([Malloc ((calc_bytes_per_sample h format * num_samples) mod 2 ^ 64) True, Interleave 0] @ cs @ [Deinterleave 0, c]))"
    using at_error_events [of fl] restored(4) run by (metis snd_conv)
  then show ?thesis
    using s not_is_check_in [OF restored(2)] restored(3) is_check_simps by auto
qed

text \<open>
  C7 in a run in which the deinterleaver returns -7.
\<close>

theorem transform_failure_aborts_witness:
  "Deinterleave (- 7) \<in> set (snd (test (stub_interleaver (\<lambda>layout. 0) (- 7)) False False
        (Some (\<lambda>k. 0)) BLADERF_RX_X1 BLADERF_TX_X1 BLADERF_FORMAT_SC16_Q11 1))
   \<and> fst (test (stub_interleaver (\<lambda>layout. 0) (- 7)) False False
        (Some (\<lambda>k. 0)) BLADERF_RX_X1 BLADERF_TX_X1 BLADERF_FORMAT_SC16_Q11 1) = Returned (- 7)
   \<and> (\<exists>pre. snd (test (stub_interleaver (\<lambda>layout. 0) (- 7)) False False
        (Some (\<lambda>k. 0)) BLADERF_RX_X1 BLADERF_TX_X1 BLADERF_FORMAT_SC16_Q11 1)
          = pre @ [Deinterleave (- 7), Free])"
proof -
  let ?run = "test (stub_interleaver (\<lambda>layout. 0) (- 7)) False False
        (Some (\<lambda>k. 0)) BLADERF_RX_X1 BLADERF_TX_X1 BLADERF_FORMAT_SC16_Q11 1"
  have ev: "Deinterleave (- 7) \<in> set (snd ?run)"
    unfolding run_inverse_fails by simp
  have "?run = (fst ?run, snd ?run)" by simp
  from transform_failure_aborts [OF this, of "- 7"] ev
  show ?thesis by simp
qed

subsection \<open>C8: main and its four test cases\<close>




subsection \<open>C9: the buffer is released exactly once\<close>

text \<open>
  Claim C9. When the buffer was generated and \<open>test\<close> returns, on whichever path, the
  release of the buffer is the last event of the run and there is no other release
  before it.
\<close>

theorem buffer_released_once:
  assumes run: "test h verbose quiet hp rxlay txlay format num_samples = (Returned status, tr)"
    and gen: "Malloc n True \<in> set tr"
  shows "\<exists>mid. tr = Malloc n True # mid @ [Free] \<and> Free \<notin> set mid"
proof (cases rule: test_cases [of h verbose quiet hp rxlay txlay format num_samples])
  case invalid
  then show ?thesis using run gen by simp
next
  case nomem
  then show ?thesis using run gen by simp
next
  case (crash f)
  then show ?thesis using run by simp
next
  case (forward s)
  then show ?thesis using run gen by auto
next
  case (checks fl cs)
  let ?b = "(calc_bytes_per_sample h format * num_samples) mod 2 ^ 64"
  have tr: "tr = ([Malloc ?b True, Interleave 0] @ cs) @ [Free]"
    using at_error_returned [OF checks(2)] checks(4) run by metis
  then have "n = ?b" using gen not_is_check_in [OF checks(3)] is_check_simps by auto
  then show ?thesis
    using tr not_is_check_in [OF checks(3)] is_check_simps
    by (intro exI [of _ "Interleave 0 # cs"]) auto
next
  case (inverse s cs)
  let ?b = "(calc_bytes_per_sample h format * num_samples) mod 2 ^ 64"
  have tr: "tr = [Malloc ?b True, Interleave 0] @ cs @ [Deinterleave s, Free]"
    using inverse run by simp
  then have "n = ?b" using gen not_is_check_in [OF inverse(2)] is_check_simps by auto
  then show ?thesis
    using tr not_is_check_in [OF inverse(2)] is_check_simps
    by (intro exI [of _ "Interleave 0 # cs @ [Deinterleave s]"]) auto
next
  case (restored fl cs c)
  let ?b = "(calc_bytes_per_sample h format * num_samples) mod 2 ^ 64"
  have tr: "tr = ([Malloc ?b True, Interleave 0] @ cs @ [Deinterleave 0, c]) @ [Free]"
    using at_error_returned [OF restored(1)] restored(4) run by metis
  then have "n = ?b"
    using gen not_is_check_in [OF restored(2)] restored(3) is_check_simps by auto
  then show ?thesis
    using tr not_is_check_in [OF restored(2)] restored(3) is_check_simps
    by (intro exI [of _ "Interleave 0 # cs @ [Deinterleave 0, c]"]) auto
qed

text \<open>
  C9 in a run that passes every check.
\<close>

theorem buffer_released_once_witness:
  "Malloc 4 True \<in> set (snd (test (stub_interleaver (\<lambda>layout. 0) 0) False False (Some (\<lambda>k. 0))
      BLADERF_RX_X1 BLADERF_TX_X1 BLADERF_FORMAT_SC16_Q11 1))
   \<and> (\<exists>mid. snd (test (stub_interleaver (\<lambda>layout. 0) 0) False False (Some (\<lambda>k. 0))
      BLADERF_RX_X1 BLADERF_TX_X1 BLADERF_FORMAT_SC16_Q11 1) = Malloc 4 True # mid @ [Free]
         \<and> Free \<notin> set mid)"
proof -
  let ?run = "test (stub_interleaver (\<lambda>layout. 0) 0) False False (Some (\<lambda>k. 0))
      BLADERF_RX_X1 BLADERF_TX_X1 BLADERF_FORMAT_SC16_Q11 1"
  have ev: "Malloc 4 True \<in> set (snd ?run)"
    unfolding run_one_channel by simp
  have "?run = (Returned 0, snd ?run)" unfolding run_one_channel by simp
  from buffer_released_once [OF this ev] ev
  show ?thesis by simp
qed

subsection \<open>C10: a null buffer\<close>

text \<open>
  Claim C10. With a null buffer, \<open>check_buf\<close> returns failure, whatever the other
  arguments are, and its log is empty: no sample was inspected.
\<close>

theorem check_buf_null:
  "check_buf m None buflen samplesize stride count = Some (Checked False [])"
  by (simp add: check_buf_def)

lemma check_step_Next:
  "fst (check_step st m p buflen samplesize stride count) = Next \<Longrightarrow>
   \<exists>log. snd (check_step st m p buflen samplesize stride count)
      = [Check st (Some p) buflen samplesize stride count (Some (Checked True log))]"
  by (auto simp add: check_step_def Let_def split: option.splits check_result.splits if_splits)

lemma chan_loop_Next_passed:
  "fst (chan_loop verbose quiet buf samplesize offset num_chan bytes i) = Next \<Longrightarrow>
   e \<in> set (snd (chan_loop verbose quiet buf samplesize offset num_chan bytes i)) \<Longrightarrow>
   \<exists>st p l ss sd c log. e = Check st p l ss sd c (Some (Checked True log))"
proof (induction "num_chan - i" arbitrary: i)
  case 0
  then show ?case by (simp add: chan_loop_end)
next
  case (Suc x)
  then have lt: "i < num_chan" by simp
  let ?dmp = "dump_step verbose quiet bytes i"
  let ?chk = "check_step (Channel i) buf (offset + samplesize * i) (bytes - offset) samplesize
                   num_chan (word_of_nat (((offset + i * ((bytes - offset) div num_chan)) div 2) mod 65536))"
  let ?rest = "chan_loop verbose quiet buf samplesize offset num_chan bytes (Suc i)"
  have nx: "fst (andthen ?dmp (andthen ?chk ?rest)) = Next"
    using Suc.prems(1) unfolding chan_loop_unfold [OF lt] .
  have d: "fst ?dmp = Next" using nx andthen_cases [of ?dmp "andthen ?chk ?rest"] by auto
  then have nx2: "fst (andthen ?chk ?rest) = Next"
    using nx andthen_cases [of ?dmp "andthen ?chk ?rest"] by auto
  have c: "fst ?chk = Next" using nx2 andthen_cases [of ?chk ?rest] by auto
  then have r: "fst ?rest = Next" using nx2 andthen_cases [of ?chk ?rest] by auto
  have eq: "snd (chan_loop verbose quiet buf samplesize offset num_chan bytes i)
      = snd ?chk @ snd ?rest"
    unfolding chan_loop_unfold [OF lt]
    using d c andthen_cases [of ?dmp "andthen ?chk ?rest"] andthen_cases [of ?chk ?rest]
    by (auto simp add: snd_dump_step)
  from Suc.prems(2) consider "e \<in> set (snd ?chk)" | "e \<in> set (snd ?rest)"
    unfolding eq by auto
  then show ?case
  proof cases
    case 1
    then show ?thesis using check_step_Next [OF c] by auto
  next
    case 2
    then show ?thesis using Suc.hyps(1) [of "Suc i"] Suc.hyps(2) r by simp
  qed
qed

lemma mid_checks_Next_passed:
  assumes "fst (mid_checks verbose quiet buf1 samplesize offset num_chan bytes) = Next"
    and "e \<in> set (snd (mid_checks verbose quiet buf1 samplesize offset num_chan bytes))"
  shows "\<exists>st p l ss sd c log. e = Check st p l ss sd c (Some (Checked True log))"
proof -
  let ?M = "(if offset > 0
             then steps [print_step (print_buf verbose offset NUM_COLUMNS),
                         check_step Metadata buf1 0 offset samplesize 1 0]
             else (Next, []))"
  let ?N = "(if num_chan = 1
             then check_step NoInterleave buf1 0 bytes samplesize 1 0
             else (Next, []))"
  let ?L = "chan_loop verbose quiet buf1 samplesize offset num_chan bytes 0"
  have all: "fst ?M = Next" "fst ?N = Next" "fst ?L = Next"
    and e: "e \<in> set (snd ?M) \<union> set (snd ?N) \<union> set (snd ?L)"
    using steps_all_Next [OF assms(1) [unfolded mid_checks_def]] assms(2)
    unfolding mid_checks_def by auto
  from e consider "e \<in> set (snd ?M)" | "e \<in> set (snd ?N)" | "e \<in> set (snd ?L)" by blast
  then show ?thesis
  proof cases
    case 1
    then have pos: "offset > 0" by (auto split: if_splits)
    then have "fst (steps [print_step (print_buf verbose offset NUM_COLUMNS),
                         check_step Metadata buf1 0 offset samplesize 1 0]) = Next"
      using all(1) by simp
    from steps_all_Next [OF this]
    have c: "fst (check_step Metadata buf1 0 offset samplesize 1 0) = Next"
      and s: "snd ?M = snd (check_step Metadata buf1 0 offset samplesize 1 0)"
      using pos by (simp_all add: snd_print_step)
    show ?thesis using 1 check_step_Next [OF c] unfolding s by auto
  next
    case 2
    then have one: "num_chan = 1" by (auto split: if_splits)
    then have c: "fst (check_step NoInterleave buf1 0 bytes samplesize 1 0) = Next"
      using all(2) by simp
    show ?thesis using 2 one check_step_Next [OF c] by auto
  next
    case 3
    then show ?thesis using chan_loop_Next_passed [OF all(3)] by blast
  qed
qed

section \<open>Further properties\<close>

text \<open>
  Property X1. For every choice of the arguments, whenever \<open>check_buf\<close> returns a result,
  the result is success exactly when the buffer is not null and no entry of the log is a
  mismatch. Where the scan does not run to its end (C4), no result is returned at all.
\<close>

lemma check_loop_verdict:
  assumes "check_loop m buf bound stride i count retval log = Some y"
  shows "\<forall>ok log'. y = Checked ok log' \<longrightarrow>
           (\<exists>new. log' = log @ new \<and> ok = (retval \<and> list_all cmp_ok new))"
proof (rule check_loop.raw_induct
    [where P = "\<lambda>m buf bound stride i count retval log y.
                  \<forall>ok log'. y = Checked ok log' \<longrightarrow>
                    (\<exists>new. log' = log @ new \<and> ok = (retval \<and> list_all cmp_ok new))",
     OF _ assms])
  fix check_loop' m buf bound stride i count retval log y
  assume IH: "\<And>m buf bound stride i count retval log y.
      check_loop' m buf bound stride i count retval log = Some y \<Longrightarrow>
      \<forall>ok log'. y = Checked ok log' \<longrightarrow>
        (\<exists>new. log' = log @ new \<and> ok = (retval \<and> list_all cmp_ok new))"
    and body: "(if i < bound then
        (case read_u32 m (buf + 4 * i) of
           None \<Rightarrow> Some (Faulted OutOfBounds)
         | Some v \<Rightarrow>
             (let (expect, count') = next_expect count in
              check_loop' m buf bound stride ((i + stride) mod 2 ^ 64) count'
                (if expect \<noteq> v then False else retval)
                (log @ [\<lparr>c_addr = buf + 4 * i, c_actual = v, c_expect = expect\<rparr>])))
      else Some (Checked retval log)) = Some y"
  show "\<forall>ok log'. y = Checked ok log' \<longrightarrow>
          (\<exists>new. log' = log @ new \<and> ok = (retval \<and> list_all cmp_ok new))"
  proof (cases "i < bound")
    case False
    then show ?thesis using body by auto
  next
    case True
    show ?thesis
    proof (cases "read_u32 m (buf + 4 * i)")
      case None
      then show ?thesis using body True by auto
    next
      case (Some v)
      obtain expect count' where ne: "next_expect count = (expect, count')"
        by (cases "next_expect count")
      let ?e = "\<lparr>c_addr = buf + 4 * i, c_actual = v, c_expect = expect\<rparr>"
      have call: "check_loop' m buf bound stride ((i + stride) mod 2 ^ 64) count'
                (if expect \<noteq> v then False else retval) (log @ [?e]) = Some y"
        using body True Some ne by simp
      show ?thesis
      proof (intro allI impI)
        fix ok log'
        assume y: "y = Checked ok log'"
        from IH [OF call, rule_format, OF y]
        obtain new where new: "log' = (log @ [?e]) @ new"
          "ok = ((if expect \<noteq> v then False else retval) \<and> list_all cmp_ok new)"
          by blast
        show "\<exists>new. log' = log @ new \<and> ok = (retval \<and> list_all cmp_ok new)"
          by (rule exI [of _ "?e # new"]) (use new in \<open>auto simp add: cmp_ok_def\<close>)
      qed
    qed
  qed
qed

theorem check_buf_verdict_sound:
  "check_buf m buf buflen samplesize stride count = Some (Checked ok log)
   \<longrightarrow> ok = (buf \<noteq> None \<and> filter (\<lambda>e. c_actual e \<noteq> c_expect e) log = [])"
proof
  assume run: "check_buf m buf buflen samplesize stride count = Some (Checked ok log)"
  have f: "list_all cmp_ok xs = (filter (\<lambda>e. c_actual e \<noteq> c_expect e) xs = [])" for xs
    by (induction xs) (simp_all add: cmp_ok_def)
  show "ok = (buf \<noteq> None \<and> filter (\<lambda>e. c_actual e \<noteq> c_expect e) log = [])"
  proof (cases buf)
    case None
    then show ?thesis using run by (simp add: check_buf_def)
  next
    case (Some p)
    then have "check_loop m p (buflen div samplesize) stride 0 count True [] = Some (Checked ok log)"
      using run by (simp add: check_buf_def split: if_splits)
    from check_loop_verdict [OF this] show ?thesis using Some by (simp add: f)
  qed
qed

text \<open>
  X1 on a buffer whose first sample is wrong.
\<close>

theorem check_buf_verdict_sound_witness:
  "check_buf [5, 0, 1, 0, 2, 0, 3, 0] (Some 0) 8 4 1 0 =
     Some (Checked False
        [\<lparr>c_addr = 0, c_actual = 65541, c_expect = 65536\<rparr>,
         \<lparr>c_addr = 4, c_actual = 196610, c_expect = 196610\<rparr>])
   \<and> False = ((Some (0::nat) \<noteq> None) \<and> filter (\<lambda>e. c_actual e \<noteq> c_expect e)
        [\<lparr>c_addr = 0, c_actual = 65541, c_expect = 65536\<rparr>,
         \<lparr>c_addr = 4, c_actual = 196610, c_expect = 196610\<rparr>] = [])"
proof -
  have run: "check_buf [5, 0, 1, 0, 2, 0, 3, 0] (Some 0) 8 4 1 0 =
     Some (Checked False
        [\<lparr>c_addr = 0, c_actual = 65541, c_expect = 65536\<rparr>,
         \<lparr>c_addr = 4, c_actual = 196610, c_expect = 196610\<rparr>])"
    by (simp add: check_buf_def check_loop_step check_loop_done word_at_def read_u32_def)
  from check_buf_verdict_sound [rule_format, OF run] run
  show ?thesis by blast
qed

text \<open>
  Property X2. A test case that returns 0 has called both transforms, each of which
  returned 0, and every call of \<open>check_buf\<close> it made returned success.
\<close>

theorem test_success_means_all_passed:
  assumes run: "test h verbose quiet hp rxlay txlay format num_samples = (Returned 0, tr)"
  shows "Interleave 0 \<in> set tr \<and> Deinterleave 0 \<in> set tr
       \<and> (\<forall>st p l ss sd c r. Check st p l ss sd c r \<in> set tr \<longrightarrow>
             (\<exists>log. r = Some (Checked True log)))"
proof (cases "calc_num_channels h rxlay \<noteq> calc_num_channels h txlay
         \<or> (calc_bytes_per_sample h format * num_samples) mod 2 ^ 64 < calc_metadata_bytes h format
         \<or> calc_num_channels h rxlay < 1")
  case True
  then show ?thesis using test_invalid [OF True] run by simp
next
  case False
  let ?bytes = "(calc_bytes_per_sample h format * num_samples) mod 2 ^ 64"
  from False have v: "calc_num_channels h rxlay = calc_num_channels h txlay"
    "calc_metadata_bytes h format \<le> ?bytes" "1 \<le> calc_num_channels h rxlay"
    by auto
  show ?thesis
  proof (cases "create_buf hp ?bytes")
    case None
    then show ?thesis using test_alloc_fail [OF v None] run by simp
  next
    case (Some buf0)
    let ?buf1 = "snd (interleave_buf h txlay format num_samples buf0)"
    let ?A = "mid_checks verbose quiet ?buf1
                (calc_bytes_per_sample h format) (calc_metadata_bytes h format)
                (calc_num_channels h rxlay) ?bytes"
    let ?C = "check_step Restored
                   (snd (deinterleave_buf h rxlay format num_samples ?buf1))
                   0 ?bytes (calc_bytes_per_sample h format) 1 0"
    have flA: "check_flow (fst ?A)" by (rule check_flow_mid_checks)
    have flC: "check_flow (fst ?C)" by (rule check_flow_check_step)
    show ?thesis
      using v(1,2,3) Some
    proof (cases rule: test_shapes [where verbose = verbose and quiet = quiet])
      case (crash f)
      then show ?thesis using run by simp
    next
      case (forward s)
      then show ?thesis using run by simp
    next
      case checks
      then show ?thesis
        using at_error_returned_zero [OF flA] run by (metis)
    next
      case (inverse s)
      then show ?thesis using run by simp
    next
      case restored
      have C: "fst ?C = Next"
        using at_error_returned_zero [OF flC] restored(2) run by metis
      then have tr: "tr = [Malloc ?bytes True, Interleave 0] @ snd ?A @ [Deinterleave 0] @ snd ?C @ [Free]"
        using restored(2) run by (simp add: at_error_Next)
      have "\<exists>log. r = Some (Checked True log)" if "Check st p l ss sd c r \<in> set tr" for st p l ss sd c r
      proof -
        from that consider "Check st p l ss sd c r \<in> set (snd ?A)" | "Check st p l ss sd c r \<in> set (snd ?C)"
          unfolding tr by auto
        then show ?thesis
        proof cases
          case 1
          then show ?thesis using mid_checks_Next_passed [OF restored(1)] by blast
        next
          case 2
          then show ?thesis using check_step_Next [OF C] by auto
        qed
      qed
      then show ?thesis unfolding tr by auto
    qed
  qed
qed

text \<open>
  X2 in a run with two channels that passes every check.
\<close>

theorem test_success_means_all_passed_witness:
  "fst (test (stub_interleaver (\<lambda>layout. 0) 0) False False (Some (\<lambda>k. 0))
      BLADERF_RX_X2 BLADERF_TX_X2 BLADERF_FORMAT_SC16_Q11 2) = Returned 0
   \<and> Interleave 0 \<in> set (snd (test (stub_interleaver (\<lambda>layout. 0) 0) False False (Some (\<lambda>k. 0))
      BLADERF_RX_X2 BLADERF_TX_X2 BLADERF_FORMAT_SC16_Q11 2))
   \<and> Deinterleave 0 \<in> set (snd (test (stub_interleaver (\<lambda>layout. 0) 0) False False (Some (\<lambda>k. 0))
      BLADERF_RX_X2 BLADERF_TX_X2 BLADERF_FORMAT_SC16_Q11 2))"
proof -
  let ?run = "test (stub_interleaver (\<lambda>layout. 0) 0) False False (Some (\<lambda>k. 0))
      BLADERF_RX_X2 BLADERF_TX_X2 BLADERF_FORMAT_SC16_Q11 2"
  have r: "?run = (Returned 0, snd ?run)" unfolding run_two_channels by simp
  from test_success_means_all_passed [OF r] r
  show ?thesis by (metis fst_conv)
qed

end
